theory Spec2Isabelle
  imports Main "HOL-Library.Word" "HOL-Library.Multiset"
begin

section \<open>Coroutine handles, promises and frames\<close>

text \<open>
  The repository holds four small C++20 coroutine programs:
  \<^item> \<^verbatim>\<open>simple-task.cc\<close> (first program): \<^verbatim>\<open>Promise<T, Awaiter>\<close>, \<^verbatim>\<open>RepeatAwaiter\<close>,
    \<^verbatim>\<open>Task\<close> and the body \<^verbatim>\<open>work()\<close>;
  \<^item> \<^verbatim>\<open>simple-task.cc\<close> (second program): \<^verbatim>\<open>PreviousAwaiter\<close>, \<^verbatim>\<open>Promise\<close>, \<^verbatim>\<open>Task\<close>,
    \<^verbatim>\<open>WorldTask\<close> with its \<^verbatim>\<open>CalleeAwaiter\<close>, and the bodies \<^verbatim>\<open>world()\<close>, \<^verbatim>\<open>hello()\<close>;
  \<^item> the recursive program (\<^verbatim>\<open>part_000\<close>, repeated in \<^verbatim>\<open>part_001\<close>): \<^verbatim>\<open>PreviousAwaiter\<close>,
    \<^verbatim>\<open>CalleeAwaiter\<close>, \<^verbatim>\<open>Promise\<close>, \<^verbatim>\<open>Task\<close> and the body \<^verbatim>\<open>factorial(n)\<close>;
  \<^item> the scheduler program (second half of \<^verbatim>\<open>part_001\<close>): \<^verbatim>\<open>Promise<T>\<close>, \<^verbatim>\<open>Task<T>\<close> with
    its \<^verbatim>\<open>Awaiter\<close>, and \<^verbatim>\<open>Loop\<close>.

  A \<^verbatim>\<open>std::coroutine_handle<>\<close> is \<^verbatim>\<open>nullptr\<close>, the handle of \<^verbatim>\<open>std::noop_coroutine()\<close>, or
  the address of a coroutine frame. C++ \<^verbatim>\<open>int\<close> is a 32-bit word; its arithmetic wraps
  (signed overflow, which C++ leaves undefined, is given its two's-complement result).
  Output to \<^verbatim>\<open>std::cout\<close> is not modelled.
\<close>

type_synonym int32 = "32 word"
type_synonym exn = string

datatype handle = Null | Noop | Frame nat

text \<open>The second template argument of \<^verbatim>\<open>Promise<T, Awaiter>\<close> in \<^verbatim>\<open>simple-task.cc\<close>.\<close>

datatype yield_awaiter = suspend_always | RepeatAwaiter

text \<open>
  The return type of a coroutine function fixes its promise type:
  \<^item> \<open>SimpleTask aw\<close>: \<^verbatim>\<open>Task\<close> of the first program of \<^verbatim>\<open>simple-task.cc\<close>, whose
    \<^verbatim>\<open>promise_type\<close> is \<^verbatim>\<open>Promise<int, aw>\<close> (the code selects \<^verbatim>\<open>RepeatAwaiter\<close>; the template
    default and the line commented out select \<^verbatim>\<open>std::suspend_always\<close>);
  \<^item> \<open>HelloTask\<close>, \<open>WorldTask\<close>: \<^verbatim>\<open>Task\<close> and \<^verbatim>\<open>WorldTask\<close> of the second program;
  \<^item> \<open>RecTask\<close>: \<^verbatim>\<open>Task\<close> of the recursive program;
  \<^item> \<open>LoopTask\<close>: \<^verbatim>\<open>Task<T>\<close> of the scheduler program, whose \<^verbatim>\<open>promise_type\<close> is
    \<^verbatim>\<open>Promise<T>\<close>: the primary template for a body that ends in \<^verbatim>\<open>co_return v\<close> (\<open>T\<close> is
    \<^verbatim>\<open>int\<close> here), the specialisation \<^verbatim>\<open>Promise<void>\<close> for a body that ends in
    \<^verbatim>\<open>co_return;\<close>.
\<close>

datatype task_type = SimpleTask yield_awaiter | HelloTask | WorldTask | RecTask | LoopTask

record task =
  ttype :: task_type
  coroutine :: handle

text \<open>
  The awaiter objects of a \<^verbatim>\<open>co_await\<close>, each holding the handle of the awaited frame:
  \<^verbatim>\<open>CalleeAwaiter\<close> of the recursive program, \<^verbatim>\<open>WorldTask::CalleeAwaiter\<close>, and the nested
  \<^verbatim>\<open>Task<T>::Awaiter\<close> of the scheduler program, at a \<open>T\<close> that is not \<^verbatim>\<open>void\<close>
  (\<open>Task_Awaiter\<close>) and at \<^verbatim>\<open>T = void\<close> (\<open>Task_void_Awaiter\<close>).
\<close>

datatype awaiter =
    CalleeAwaiter handle
  | WorldTask_CalleeAwaiter handle
  | Task_Awaiter handle
  | Task_void_Awaiter handle

text \<open>
  A coroutine body is what remains to be executed of the function body: a \<^verbatim>\<open>co_yield\<close>,
  a \<^verbatim>\<open>co_return v\<close>, a \<^verbatim>\<open>co_return;\<close>, the call of a coroutine function (which allocates
  the callee's frame and yields its task object), a \<^verbatim>\<open>co_await\<close> on a task (through its
  \<^verbatim>\<open>operator co_await\<close>) or on an awaiter object (whose value the rest of the body
  receives), or a \<^verbatim>\<open>throw\<close> that leaves the body. Destructors of a body's local task
  objects at scope exit are not part of a body: the frames those own stay in the store.
\<close>

datatype body =
    co_yield int32 body
  | co_return int32
  | co_return_void
  | call task_type body "task \<Rightarrow> body"
  | co_await task "int32 \<Rightarrow> body"
  | co_await_awaiter awaiter "int32 \<Rightarrow> body"
  | throw exn

text \<open>The suspension point a frame is parked at; \<^verbatim>\<open>done()\<close> holds at the final one.\<close>

datatype point =
    Initial body
  | AtYield body
  | AtAwait task "int32 \<Rightarrow> body"
  | AtAwaiter awaiter "int32 \<Rightarrow> body"
  | Final

text \<open>
  The promise object: \<^verbatim>\<open>_value\<close> (\<^verbatim>\<open>value\<close> in \<^verbatim>\<open>Promise<T>\<close>), \<^verbatim>\<open>previous\<close> and
  \<^verbatim>\<open>exception\<close>. \<^verbatim>\<open>Promise<T, Awaiter>\<close> has no \<^verbatim>\<open>previous\<close>, only \<^verbatim>\<open>Promise<T>\<close> and
  \<^verbatim>\<open>Promise<void>\<close> have \<^verbatim>\<open>exception\<close>, and \<^verbatim>\<open>Promise<void>\<close> has no value; the unused
  fields keep their initial values.
\<close>

record promise =
  p_value :: "int32 option"
  p_previous :: handle
  p_exception :: "exn option"

record frame =
  kind :: task_type
  promise :: promise
  point :: point

record store =
  frames :: "nat \<Rightarrow> frame option"
  next_frame :: nat

definition empty_store :: store where
  "empty_store = \<lparr>frames = (\<lambda>a. None), next_frame = 0\<rparr>"

text \<open>
  \<^verbatim>\<open>std::optional<int> _value{}\<close>, \<^verbatim>\<open>previous{std::noop_coroutine()}\<close>,
  \<^verbatim>\<open>exception{nullptr}\<close>.
\<close>

definition initial_promise :: promise where
  "initial_promise = \<lparr>p_value = None, p_previous = Noop, p_exception = None\<rparr>"

fun is_Final :: "point \<Rightarrow> bool" where
  "is_Final Final = True"
| "is_Final _ = False"

text \<open>
  \<^verbatim>\<open>h.done()\<close>. The handle of \<^verbatim>\<open>std::noop_coroutine()\<close> always answers false. On
  \<^verbatim>\<open>nullptr\<close> and on the address of a destroyed frame the behaviour is undefined: \<open>None\<close>.
\<close>

definition coro_done :: "store \<Rightarrow> handle \<Rightarrow> bool option" where
  "coro_done s h =
     (case h of
        Null \<Rightarrow> None
      | Noop \<Rightarrow> Some False
      | Frame a \<Rightarrow> (case frames s a of None \<Rightarrow> None | Some f \<Rightarrow> Some (is_Final (point f))))"

definition set_frame :: "store \<Rightarrow> nat \<Rightarrow> frame \<Rightarrow> store" where
  "set_frame s a f = s\<lparr>frames := (frames s)(a := Some f)\<rparr>"

subsection \<open>\<^verbatim>\<open>PreviousAwaiter\<close> (all three copies are the same)\<close>

definition PreviousAwaiter_await_ready :: bool where
  "PreviousAwaiter_await_ready = False"

text \<open>
  The condition \<^verbatim>\<open>previous && !previous.done()\<close>, with the short-circuit of \<^verbatim>\<open>&&\<close>.
\<close>

definition climbs_up :: "store \<Rightarrow> handle \<Rightarrow> bool option" where
  "climbs_up s previous =
     (if previous \<noteq> Null
      then (case coro_done s previous of None \<Rightarrow> None | Some d \<Rightarrow> Some (\<not> d))
      else Some False)"

definition PreviousAwaiter_await_suspend :: "store \<Rightarrow> handle \<Rightarrow> handle \<Rightarrow> handle option" where
  "PreviousAwaiter_await_suspend s previous coro =
     (case climbs_up s previous of
        None \<Rightarrow> None
      | Some True \<Rightarrow> Some previous
      | Some False \<Rightarrow> Some Noop)"

subsection \<open>\<^verbatim>\<open>RepeatAwaiter\<close>\<close>

definition RepeatAwaiter_await_ready :: bool where
  "RepeatAwaiter_await_ready = False"

definition RepeatAwaiter_await_suspend :: "store \<Rightarrow> handle \<Rightarrow> handle option" where
  "RepeatAwaiter_await_suspend s coro =
     (case coro_done s coro of
        None \<Rightarrow> None
      | Some d \<Rightarrow> Some (if \<not> d then coro else Noop))"

subsection \<open>The promise types\<close>

text \<open>
  \<^verbatim>\<open>yield_value\<close> stores the value and returns the awaiter of the \<^verbatim>\<open>co_yield\<close>.
  \<^verbatim>\<open>Promise<T>\<close> and \<^verbatim>\<open>Promise<void>\<close> of the scheduler program declare no
  \<^verbatim>\<open>yield_value\<close>.
\<close>

fun yield_value :: "task_type \<Rightarrow> int32 \<Rightarrow> promise \<Rightarrow> (promise \<times> yield_awaiter) option" where
  "yield_value (SimpleTask aw) v p = Some (p\<lparr>p_value := Some v\<rparr>, aw)"
| "yield_value LoopTask v p = None"
| "yield_value k v p = Some (p\<lparr>p_value := Some v\<rparr>, suspend_always)"

definition return_value :: "int32 \<Rightarrow> promise \<Rightarrow> promise" where
  "return_value v p = p\<lparr>p_value := Some v\<rparr>"

text \<open>
  \<^verbatim>\<open>return_void\<close>, which only \<^verbatim>\<open>Promise<void>\<close> declares:
  \<^verbatim>\<open>if (exception) std::rethrow_exception(exception);\<close> (\<open>Inl\<close>), and nothing else.
\<close>

definition return_void :: "task_type \<Rightarrow> promise \<Rightarrow> (exn + promise) option" where
  "return_void k p =
     (case k of
        LoopTask \<Rightarrow> Some (case p_exception p of Some e \<Rightarrow> Inl e | None \<Rightarrow> Inr p)
      | _ \<Rightarrow> None)"

text \<open>
  \<^verbatim>\<open>unhandled_exception\<close>: \<^verbatim>\<open>Promise<T>\<close> and \<^verbatim>\<open>Promise<void>\<close> of the scheduler program
  store \<^verbatim>\<open>std::current_exception()\<close>; every other promise executes \<^verbatim>\<open>throw;\<close>, which hands
  the exception on (\<open>Inl\<close>).
\<close>

fun unhandled_exception :: "task_type \<Rightarrow> exn \<Rightarrow> promise \<Rightarrow> exn + promise" where
  "unhandled_exception LoopTask e p = Inr (p\<lparr>p_exception := Some e\<rparr>)"
| "unhandled_exception k e p = Inl e"

text \<open>
  \<^verbatim>\<open>final_suspend\<close>: \<^verbatim>\<open>std::suspend_always\<close> in \<^verbatim>\<open>Promise<T, Awaiter>\<close>,
  \<^verbatim>\<open>PreviousAwaiter{previous}\<close> in the others.
\<close>

datatype final_awaiter = final_suspend_always | PreviousAwaiter handle

fun final_suspend :: "task_type \<Rightarrow> promise \<Rightarrow> final_awaiter" where
  "final_suspend (SimpleTask aw) p = final_suspend_always"
| "final_suspend k p = PreviousAwaiter (p_previous p)"

text \<open>
  \<^verbatim>\<open>result()\<close> of the scheduler program. In the primary template \<^verbatim>\<open>Promise<T>\<close> it
  rethrows a stored exception (\<open>Inl\<close>) and otherwise returns the optional value. In the
  specialisation \<^verbatim>\<open>Promise<void>\<close> its body is empty: it returns whatever the promise
  holds, a stored exception included.
\<close>

definition Promise_result :: "promise \<Rightarrow> exn + int32 option" where
  "Promise_result p = (case p_exception p of Some e \<Rightarrow> Inl e | None \<Rightarrow> Inr (p_value p))"

definition Promise_void_result :: "promise \<Rightarrow> exn + unit" where
  "Promise_void_result p = Inr ()"

subsection \<open>The awaiters of \<^verbatim>\<open>co_await\<close>\<close>

text \<open>The statement \<^verbatim>\<open>callee.promise().previous = caller\<close>, a plain assignment.\<close>

definition set_previous :: "store \<Rightarrow> handle \<Rightarrow> handle \<Rightarrow> store option" where
  "set_previous s callee caller =
     (case callee of
        Frame a \<Rightarrow>
          (case frames s a of
             None \<Rightarrow> None
           | Some f \<Rightarrow> Some (set_frame s a (f\<lparr>promise := (promise f)\<lparr>p_previous := caller\<rparr>\<rparr>)))
      | _ \<Rightarrow> None)"

text \<open>\<^verbatim>\<open>callee.promise().get_value()\<close> (\<^verbatim>\<open>value()\<close> in the second program).\<close>

definition get_value :: "store \<Rightarrow> handle \<Rightarrow> int32 option option" where
  "get_value s h =
     (case h of
        Frame a \<Rightarrow> (case frames s a of None \<Rightarrow> None | Some f \<Rightarrow> Some (p_value (promise f)))
      | _ \<Rightarrow> None)"

text \<open>\<^verbatim>\<open>CalleeAwaiter\<close> of the recursive program.\<close>

definition CalleeAwaiter_await_ready :: bool where
  "CalleeAwaiter_await_ready = False"

definition CalleeAwaiter_await_suspend ::
    "store \<Rightarrow> handle \<Rightarrow> handle \<Rightarrow> (store \<times> handle) option" where
  "CalleeAwaiter_await_suspend s callee awaiting_coroutine =
     (case set_previous s callee awaiting_coroutine of
        None \<Rightarrow> None
      | Some s' \<Rightarrow> Some (s', callee))"

definition CalleeAwaiter_await_resume :: "store \<Rightarrow> handle \<Rightarrow> int32 option" where
  "CalleeAwaiter_await_resume s callee =
     (case get_value s callee of
        None \<Rightarrow> None
      | Some val \<Rightarrow> Some (case val of None \<Rightarrow> 0 | Some v \<Rightarrow> v))"

text \<open>
  \<^verbatim>\<open>WorldTask::CalleeAwaiter\<close>. Its \<^verbatim>\<open>await_suspend\<close> resumes the callee in a loop and is
  part of the machine below.
\<close>

definition WorldTask_CalleeAwaiter_await_ready :: "store \<Rightarrow> handle \<Rightarrow> bool option" where
  "WorldTask_CalleeAwaiter_await_ready s callee =
     (if callee \<noteq> Null then coro_done s callee else Some False)"

definition WorldTask_CalleeAwaiter_await_resume :: "store \<Rightarrow> handle \<Rightarrow> int32 option" where
  "WorldTask_CalleeAwaiter_await_resume s callee =
     (case get_value s callee of
        None \<Rightarrow> None
      | Some val \<Rightarrow> Some (case val of None \<Rightarrow> 0 | Some v \<Rightarrow> v))"

text \<open>
  \<^verbatim>\<open>Task<T>::Awaiter\<close> of the scheduler program. \<^verbatim>\<open>await_resume\<close> branches on
  \<^verbatim>\<open>if constexpr (std::is_void_v<T>)\<close>: at \<^verbatim>\<open>T = void\<close> it calls \<^verbatim>\<open>result()\<close> of
  \<^verbatim>\<open>Promise<void>\<close> and returns no value; otherwise it dereferences the optional that
  \<^verbatim>\<open>result()\<close> of \<^verbatim>\<open>Promise<T>\<close> returns, which is undefined when the optional is empty,
  and the stored exception is rethrown by \<^verbatim>\<open>result()\<close> (\<open>Inl\<close>).
\<close>

definition Task_Awaiter_await_ready :: bool where
  "Task_Awaiter_await_ready = False"

definition Task_Awaiter_await_suspend ::
    "store \<Rightarrow> handle \<Rightarrow> handle \<Rightarrow> (store \<times> handle) option" where
  "Task_Awaiter_await_suspend s coro caller =
     (case set_previous s coro caller of
        None \<Rightarrow> None
      | Some s' \<Rightarrow> Some (s', coro))"

definition Task_Awaiter_await_resume ::
    "bool \<Rightarrow> store \<Rightarrow> handle \<Rightarrow> (exn + int32 option) option" where
  "Task_Awaiter_await_resume is_void s coro =
     (case coro of
        Frame a \<Rightarrow>
          (case frames s a of
             None \<Rightarrow> None
           | Some f \<Rightarrow>
               (if is_void
                then (case Promise_void_result (promise f) of
                        Inl e \<Rightarrow> Some (Inl e)
                      | Inr u \<Rightarrow> Some (Inr None))
                else (case Promise_result (promise f) of
                        Inl e \<Rightarrow> Some (Inl e)
                      | Inr None \<Rightarrow> None
                      | Inr (Some v) \<Rightarrow> Some (Inr (Some v)))))
      | _ \<Rightarrow> None)"

text \<open>
  \<^verbatim>\<open>operator co_await\<close>: which awaiter a task produces. The \<^verbatim>\<open>Task\<close> types of
  \<^verbatim>\<open>simple-task.cc\<close> are not awaitable, and \<^verbatim>\<open>Task<T>\<close> declares no \<^verbatim>\<open>operator co_await\<close>
  either: its nested \<^verbatim>\<open>Awaiter\<close> is awaited as an object of its own.
\<close>

definition operator_co_await :: "task \<Rightarrow> awaiter option" where
  "operator_co_await t =
     (case ttype t of
        RecTask \<Rightarrow> Some (CalleeAwaiter (coroutine t))
      | WorldTask \<Rightarrow> Some (WorldTask_CalleeAwaiter (coroutine t))
      | _ \<Rightarrow> None)"

fun await_ready :: "store \<Rightarrow> awaiter \<Rightarrow> bool option" where
  "await_ready s (CalleeAwaiter callee) = Some CalleeAwaiter_await_ready"
| "await_ready s (WorldTask_CalleeAwaiter callee) = WorldTask_CalleeAwaiter_await_ready s callee"
| "await_ready s (Task_Awaiter coro) = Some Task_Awaiter_await_ready"
| "await_ready s (Task_void_Awaiter coro) = Some Task_Awaiter_await_ready"

text \<open>
  The value the rest of the body receives from a \<^verbatim>\<open>co_await\<close> expression. An expression
  of type \<^verbatim>\<open>void\<close> has none: the rest of the body cannot use it and is given 0.
\<close>

fun expression_value :: "int32 option \<Rightarrow> int32" where
  "expression_value (Some v) = v"
| "expression_value None = 0"

fun await_resume :: "store \<Rightarrow> awaiter \<Rightarrow> (exn + int32) option" where
  "await_resume s (CalleeAwaiter callee) = map_option Inr (CalleeAwaiter_await_resume s callee)"
| "await_resume s (WorldTask_CalleeAwaiter callee) =
     map_option Inr (WorldTask_CalleeAwaiter_await_resume s callee)"
| "await_resume s (Task_Awaiter coro) =
     map_option (map_sum id expression_value) (Task_Awaiter_await_resume False s coro)"
| "await_resume s (Task_void_Awaiter coro) =
     map_option (map_sum id expression_value) (Task_Awaiter_await_resume True s coro)"

text \<open>
  What the awaiting body goes on with once the \<^verbatim>\<open>co_await\<close> expression is evaluated:
  the rest of the body on the value of \<^verbatim>\<open>await_resume()\<close>, or the exception it throws.
\<close>

definition after_awaiter :: "store \<Rightarrow> awaiter \<Rightarrow> (int32 \<Rightarrow> body) \<Rightarrow> body option" where
  "after_awaiter s aw k =
     (case await_resume s aw of
        None \<Rightarrow> None
      | Some (Inl e) \<Rightarrow> Some (throw e)
      | Some (Inr v) \<Rightarrow> Some (k v))"

definition after_await :: "store \<Rightarrow> task \<Rightarrow> (int32 \<Rightarrow> body) \<Rightarrow> body option" where
  "after_await s t k =
     (case operator_co_await t of
        None \<Rightarrow> None
      | Some aw \<Rightarrow> after_awaiter s aw k)"

section \<open>Running coroutines\<close>

text \<open>
  Calling a coroutine function allocates the frame, builds the promise and stops at
  \<^verbatim>\<open>initial_suspend()\<close>, which is \<^verbatim>\<open>std::suspend_always\<close> in every promise type: the body has
  not run when the task object is handed to the caller.
\<close>

definition create :: "store \<Rightarrow> task_type \<Rightarrow> body \<Rightarrow> task \<times> store" where
  "create s k b =
     (\<lparr>ttype = k, coroutine = Frame (next_frame s)\<rparr>,
      s\<lparr>frames := (frames s)(next_frame s :=
            Some \<lparr>kind = k, promise = initial_promise, point = Initial b\<rparr>),
        next_frame := Suc (next_frame s)\<rparr>)"

text \<open>
  The outcome of \<^verbatim>\<open>h.resume()\<close>: it returns, an exception leaves it, the behaviour is
  undefined (or the program ill-formed), or \<^verbatim>\<open>std::terminate\<close> is called because an
  exception reached a \<^verbatim>\<open>noexcept\<close> function.
\<close>

datatype result = Normal store | Raised exn store | Undefined | Terminated

text \<open>Where control goes at a suspension point.\<close>

datatype transfer = Back_to_resumer | Into handle

definition completed :: "frame \<Rightarrow> promise \<Rightarrow> frame" where
  "completed f p = f\<lparr>promise := p, point := Final\<rparr>"

text \<open>
  The final suspension of frame \<open>a\<close>, already parked at its final point in \<open>s\<close>:
  \<^verbatim>\<open>co_await promise.final_suspend()\<close>.
\<close>

definition at_final_suspend :: "store \<Rightarrow> nat \<Rightarrow> frame \<Rightarrow> transfer option" where
  "at_final_suspend s a f =
     (case final_suspend (kind f) (promise f) of
        final_suspend_always \<Rightarrow> Some Back_to_resumer
      | PreviousAwaiter previous \<Rightarrow>
          map_option Into (PreviousAwaiter_await_suspend s previous (Frame a)))"

text \<open>The suspension of frame \<open>a\<close> at a \<^verbatim>\<open>co_yield\<close>, on the awaiter \<^verbatim>\<open>yield_value\<close> returned.\<close>

definition at_yield_suspend :: "store \<Rightarrow> nat \<Rightarrow> yield_awaiter \<Rightarrow> transfer option" where
  "at_yield_suspend s a aw =
     (case aw of
        suspend_always \<Rightarrow> Some Back_to_resumer
      | RepeatAwaiter \<Rightarrow> map_option Into (RepeatAwaiter_await_suspend s (Frame a)))"

text \<open>
  \<open>resume n s h\<close> is \<^verbatim>\<open>h.resume()\<close> in store \<open>s\<close>; a handle that \<^verbatim>\<open>await_suspend\<close> returns
  is resumed in turn (symmetric transfer). \<open>exec n s a b\<close> runs body \<open>b\<close> in frame \<open>a\<close> up
  to its next suspension. \<open>drive n s callee\<close> is the loop
  \<^verbatim>\<open>while (!callee.done()) callee.resume();\<close> of \<^verbatim>\<open>WorldTask::CalleeAwaiter::await_suspend\<close>,
  which is \<^verbatim>\<open>noexcept\<close>. The first argument bounds the number of steps; \<open>None\<close> says that
  the bound was reached. A frame that is running keeps the point it was resumed from.
\<close>

fun resume :: "nat \<Rightarrow> store \<Rightarrow> handle \<Rightarrow> result option"
  and exec :: "nat \<Rightarrow> store \<Rightarrow> nat \<Rightarrow> body \<Rightarrow> result option"
  and drive :: "nat \<Rightarrow> store \<Rightarrow> handle \<Rightarrow> result option"
where
  "resume 0 s h = None"
| "resume (Suc n) s Null = Some Undefined"
| "resume (Suc n) s Noop = Some (Normal s)"
| "resume (Suc n) s (Frame a) =
     (case frames s a of
        None \<Rightarrow> Some Undefined
      | Some f \<Rightarrow>
          (case point f of
             Final \<Rightarrow> Some Undefined
           | Initial b \<Rightarrow> exec n s a b
           | AtYield b \<Rightarrow> exec n s a b
           | AtAwait t k \<Rightarrow>
               (case after_await s t k of
                  None \<Rightarrow> Some Undefined
                | Some b \<Rightarrow> exec n s a b)
           | AtAwaiter aw k \<Rightarrow>
               (case after_awaiter s aw k of
                  None \<Rightarrow> Some Undefined
                | Some b \<Rightarrow> exec n s a b)))"
| "exec 0 s a b = None"
| "exec (Suc n) s a (co_yield v rest) =
     (case frames s a of
        None \<Rightarrow> Some Undefined
      | Some f \<Rightarrow>
          (case yield_value (kind f) v (promise f) of
             None \<Rightarrow> Some Undefined
           | Some (p, aw) \<Rightarrow>
               (case at_yield_suspend (set_frame s a (f\<lparr>promise := p, point := AtYield rest\<rparr>)) a aw of
                  None \<Rightarrow> Some Undefined
                | Some Back_to_resumer \<Rightarrow>
                    Some (Normal (set_frame s a (f\<lparr>promise := p, point := AtYield rest\<rparr>)))
                | Some (Into h) \<Rightarrow>
                    resume n (set_frame s a (f\<lparr>promise := p, point := AtYield rest\<rparr>)) h)))"
| "exec (Suc n) s a (co_return v) =
     (case frames s a of
        None \<Rightarrow> Some Undefined
      | Some f \<Rightarrow>
          (case at_final_suspend (set_frame s a (completed f (return_value v (promise f)))) a
                  (completed f (return_value v (promise f))) of
             None \<Rightarrow> Some Undefined
           | Some Back_to_resumer \<Rightarrow>
               Some (Normal (set_frame s a (completed f (return_value v (promise f)))))
           | Some (Into h) \<Rightarrow>
               resume n (set_frame s a (completed f (return_value v (promise f)))) h))"
| "exec (Suc n) s a co_return_void =
     (case frames s a of
        None \<Rightarrow> Some Undefined
      | Some f \<Rightarrow>
          (case return_void (kind f) (promise f) of
             None \<Rightarrow> Some Undefined
           | Some (Inl e) \<Rightarrow> exec n s a (throw e)
           | Some (Inr p) \<Rightarrow>
               (case at_final_suspend (set_frame s a (completed f p)) a (completed f p) of
                  None \<Rightarrow> Some Undefined
                | Some Back_to_resumer \<Rightarrow> Some (Normal (set_frame s a (completed f p)))
                | Some (Into h) \<Rightarrow> resume n (set_frame s a (completed f p)) h)))"
| "exec (Suc n) s a (throw e) =
     (case frames s a of
        None \<Rightarrow> Some Undefined
      | Some f \<Rightarrow>
          (case unhandled_exception (kind f) e (promise f) of
             Inl e' \<Rightarrow> Some (Raised e' (set_frame s a (completed f (promise f))))
           | Inr p \<Rightarrow>
               (case at_final_suspend (set_frame s a (completed f p)) a (completed f p) of
                  None \<Rightarrow> Some Undefined
                | Some Back_to_resumer \<Rightarrow> Some (Normal (set_frame s a (completed f p)))
                | Some (Into h) \<Rightarrow> resume n (set_frame s a (completed f p)) h)))"
| "exec (Suc n) s a (call k b c) =
     exec n (snd (create s k b)) a (c (fst (create s k b)))"
| "exec (Suc n) s a (co_await t k) =
     (case frames s a of
        None \<Rightarrow> Some Undefined
      | Some f \<Rightarrow>
          (case operator_co_await t of
             None \<Rightarrow> Some Undefined
           | Some aw \<Rightarrow>
               (case await_ready s aw of
                  None \<Rightarrow> Some Undefined
                | Some True \<Rightarrow>
                    (case after_await s t k of
                       None \<Rightarrow> Some Undefined
                     | Some b \<Rightarrow> exec n s a b)
                | Some False \<Rightarrow>
                    (case aw of
                       CalleeAwaiter callee \<Rightarrow>
                         (case CalleeAwaiter_await_suspend
                                 (set_frame s a (f\<lparr>point := AtAwait t k\<rparr>)) callee (Frame a) of
                            None \<Rightarrow> Some Undefined
                          | Some (s', h) \<Rightarrow> resume n s' h)
                     | Task_Awaiter coro \<Rightarrow>
                         (case Task_Awaiter_await_suspend
                                 (set_frame s a (f\<lparr>point := AtAwait t k\<rparr>)) coro (Frame a) of
                            None \<Rightarrow> Some Undefined
                          | Some (s', h) \<Rightarrow> resume n s' h)
                     | Task_void_Awaiter coro \<Rightarrow>
                         (case Task_Awaiter_await_suspend
                                 (set_frame s a (f\<lparr>point := AtAwait t k\<rparr>)) coro (Frame a) of
                            None \<Rightarrow> Some Undefined
                          | Some (s', h) \<Rightarrow> resume n s' h)
                     | WorldTask_CalleeAwaiter callee \<Rightarrow>
                         (case set_previous
                                 (set_frame s a (f\<lparr>point := AtAwait t k\<rparr>)) callee (Frame a) of
                            None \<Rightarrow> Some Undefined
                          | Some s' \<Rightarrow>
                              (case drive n s' callee of
                                 None \<Rightarrow> None
                               | Some (Normal s'') \<Rightarrow> resume n s'' Noop
                               | Some (Raised e s'') \<Rightarrow> Some Terminated
                               | Some r \<Rightarrow> Some r))))))"
| "exec (Suc n) s a (co_await_awaiter aw k) =
     (case frames s a of
        None \<Rightarrow> Some Undefined
      | Some f \<Rightarrow>
          (case await_ready s aw of
             None \<Rightarrow> Some Undefined
           | Some True \<Rightarrow>
               (case after_awaiter s aw k of
                  None \<Rightarrow> Some Undefined
                | Some b \<Rightarrow> exec n s a b)
           | Some False \<Rightarrow>
               (case aw of
                  CalleeAwaiter callee \<Rightarrow>
                    (case CalleeAwaiter_await_suspend
                            (set_frame s a (f\<lparr>point := AtAwaiter aw k\<rparr>)) callee (Frame a) of
                       None \<Rightarrow> Some Undefined
                     | Some (s', h) \<Rightarrow> resume n s' h)
                | Task_Awaiter coro \<Rightarrow>
                    (case Task_Awaiter_await_suspend
                            (set_frame s a (f\<lparr>point := AtAwaiter aw k\<rparr>)) coro (Frame a) of
                       None \<Rightarrow> Some Undefined
                     | Some (s', h) \<Rightarrow> resume n s' h)
                | Task_void_Awaiter coro \<Rightarrow>
                    (case Task_Awaiter_await_suspend
                            (set_frame s a (f\<lparr>point := AtAwaiter aw k\<rparr>)) coro (Frame a) of
                       None \<Rightarrow> Some Undefined
                     | Some (s', h) \<Rightarrow> resume n s' h)
                | WorldTask_CalleeAwaiter callee \<Rightarrow>
                    (case set_previous
                            (set_frame s a (f\<lparr>point := AtAwaiter aw k\<rparr>)) callee (Frame a) of
                       None \<Rightarrow> Some Undefined
                     | Some s' \<Rightarrow>
                         (case drive n s' callee of
                            None \<Rightarrow> None
                          | Some (Normal s'') \<Rightarrow> resume n s'' Noop
                          | Some (Raised e s'') \<Rightarrow> Some Terminated
                          | Some r \<Rightarrow> Some r)))))"
| "drive 0 s callee = None"
| "drive (Suc n) s callee =
     (case coro_done s callee of
        None \<Rightarrow> Some Undefined
      | Some True \<Rightarrow> Some (Normal s)
      | Some False \<Rightarrow>
          (case resume n s callee of
             None \<Rightarrow> None
           | Some (Normal s') \<Rightarrow> drive n s' callee
           | Some r \<Rightarrow> Some r))"

text \<open>\<^verbatim>\<open>Task::value()\<close> and \<^verbatim>\<open>task.coroutine.done()\<close>, as the \<^verbatim>\<open>main\<close> functions use them.\<close>

definition Task_value :: "store \<Rightarrow> task \<Rightarrow> int32 option option" where
  "Task_value s t = get_value s (coroutine t)"

definition Task_done :: "store \<Rightarrow> task \<Rightarrow> bool option" where
  "Task_done s t = coro_done s (coroutine t)"

section \<open>The coroutine bodies of the repository\<close>

definition work :: body where
  "work = co_yield 1 (co_yield 2 (co_return 3))"

definition world :: body where
  "world = co_yield 1 (co_yield 2 (co_return 42))"

definition hello :: body where
  "hello =
     call WorldTask world (\<lambda>world_task.
       co_await world_task (\<lambda>val1.
         co_yield val1 (co_yield 100 (co_return 200))))"

function factorial :: "int32 \<Rightarrow> body" where
  "factorial n =
     (if n \<le>s 1 then co_return 1
      else call RecTask (factorial (n - 1)) (\<lambda>sub_task.
             co_await sub_task (\<lambda>sub_result.
               co_return (n * sub_result))))"
  by pat_completeness auto
termination
proof (relation "measure unat")
  show "wf (measure (unat :: int32 \<Rightarrow> nat))" by simp
next
  fix n :: int32
  assume "\<not> n \<le>s 1"
  then have "n \<noteq> 0" by (auto simp: word_sle_eq)
  then show "(n - 1, n) \<in> measure unat"
    by (simp add: unat_minus_one unat_gt_0)
qed

declare factorial.simps [simp del]

section \<open>Observers and scenarios\<close>

text \<open>Two frames of the recursive program, freshly created: addresses 0 and 1.\<close>

definition two_frames :: store where
  "two_frames =
     snd (create (snd (create empty_store RecTask (co_return 1))) RecTask (co_return 2))"

text \<open>The continuation a frame holds: \<^verbatim>\<open>h.promise().previous\<close>.\<close>

definition previous_of :: "store \<Rightarrow> handle \<Rightarrow> handle option" where
  "previous_of s h =
     (case h of
        Frame a \<Rightarrow> map_option (\<lambda>f. p_previous (promise f)) (frames s a)
      | _ \<Rightarrow> None)"

text \<open>\<^verbatim>\<open>h.promise().exception\<close>.\<close>

definition stored_exception :: "store \<Rightarrow> handle \<Rightarrow> exn option option" where
  "stored_exception s h =
     (case h of
        Frame a \<Rightarrow> map_option (\<lambda>f. p_exception (promise f)) (frames s a)
      | _ \<Rightarrow> None)"

text \<open>
  The final suspension of frame \<open>a\<close>, parked at its final point in \<open>s\<close>, with \<open>j\<close> steps
  left: what \<open>exec\<close> does once \<^verbatim>\<open>return_value\<close> has run.
\<close>

definition finish :: "nat \<Rightarrow> store \<Rightarrow> nat \<Rightarrow> result option" where
  "finish j s a =
     (case frames s a of
        None \<Rightarrow> Some Undefined
      | Some f \<Rightarrow>
          (case at_final_suspend s a f of
             None \<Rightarrow> Some Undefined
           | Some Back_to_resumer \<Rightarrow> Some (Normal s)
           | Some (Into h) \<Rightarrow> resume j s h))"

text \<open>
  A frame of type \<open>k\<close> at address 0 that has run \<^verbatim>\<open>co_return 7\<close> to completion, and a
  second frame at address 1 whose body awaits it.
\<close>

definition callee_done :: "task_type \<Rightarrow> store" where
  "callee_done k =
     set_frame (snd (create empty_store k (co_return 7))) 0
       \<lparr>kind = k, promise = initial_promise\<lparr>p_value := Some 7\<rparr>, point = Final\<rparr>"

definition await_done :: "task_type \<Rightarrow> store" where
  "await_done k =
     snd (create (callee_done k) HelloTask
            (co_await \<lparr>ttype = k, coroutine = Frame 0\<rparr> co_return))"

text \<open>A fresh frame of type \<open>k\<close> at address 0 whose body throws.\<close>

definition failed_frame :: "task_type \<Rightarrow> store" where
  "failed_frame k = snd (create empty_store k (throw ''boom''))"

text \<open>The store \<open>failed_frame k\<close> once the frame is parked at its final point.\<close>

definition callee_failed :: "task_type \<Rightarrow> store" where
  "callee_failed k =
     set_frame (failed_frame k) 0 \<lparr>kind = k, promise = initial_promise, point = Final\<rparr>"

text \<open>
  The recursive program in the middle of a call: frame 0 is parked at its await on frame
  1, whose continuation it is; frame 1 has not run yet.
\<close>

definition awaiting_pair :: store where
  "awaiting_pair =
     \<lparr>frames = (\<lambda>a. None)
        (0 := Some \<lparr>kind = RecTask, promise = initial_promise,
                     point = AtAwait \<lparr>ttype = RecTask, coroutine = Frame 1\<rparr> co_return\<rparr>,
         1 := Some \<lparr>kind = RecTask, promise = initial_promise\<lparr>p_previous := Frame 0\<rparr>,
                     point = Initial (co_return 2)\<rparr>),
      next_frame = 2\<rparr>"

text \<open>
  A coroutine of the scheduler program that calls another one, whose body throws, and
  awaits it through \<^verbatim>\<open>Task<int>::Awaiter\<close>.
\<close>

definition await_failed :: store where
  "await_failed =
     snd (create empty_store LoopTask
            (call LoopTask (throw ''boom'') (\<lambda>sub_task.
               co_await_awaiter (Task_Awaiter (coroutine sub_task)) co_return)))"

section \<open>Task objects\<close>

text \<open>
  The repository declares six classes that hold a \<^verbatim>\<open>coroutine\<close> handle and destroy the
  frame in their destructor; they differ in the special member functions they declare:
  \<^item> \<open>Task_simple_1\<close> (\<^verbatim>\<open>Task\<close> of the first program of \<^verbatim>\<open>simple-task.cc\<close>) and
    \<open>Task_part_000\<close> (\<^verbatim>\<open>Task\<close> of \<^verbatim>\<open>part_000\<close>) declare the copy constructor and the copy
    assignment \<^verbatim>\<open>= delete\<close> and define a move constructor and a move assignment;
  \<^item> \<open>Task_simple_2\<close> and \<open>WorldTask_simple_2\<close> (\<^verbatim>\<open>Task\<close> and \<^verbatim>\<open>WorldTask\<close> of the second
    program of \<^verbatim>\<open>simple-task.cc\<close>) declare the destructor only: the copy constructor and the
    copy assignment are implicit and copy the handle, no move operation is declared, and
    a construction or assignment from an rvalue selects the copy operation;
  \<^item> \<open>Task_part_001\<close> (\<^verbatim>\<open>Task\<close> of \<^verbatim>\<open>part_001\<close>, \<^verbatim>\<open>Task& operator=(Task&&) = delete\<close>) and
    \<open>Task_template\<close> (\<^verbatim>\<open>Task<T>\<close>, \<^verbatim>\<open>Task &operator=(const Task &&) = delete\<close>) declare a
    deleted move assignment and no other copy or move operation: the implicit copy
    constructor and copy assignment of a class that declares a move assignment are
    deleted, and no move constructor is declared.
\<close>

datatype task_class =
    Task_simple_1
  | Task_simple_2
  | WorldTask_simple_2
  | Task_part_000
  | Task_part_001
  | Task_template

datatype member = User_provided | Implicit | Deleted | Not_declared

fun copy_constructor :: "task_class \<Rightarrow> member" where
  "copy_constructor Task_simple_1 = Deleted"
| "copy_constructor Task_part_000 = Deleted"
| "copy_constructor Task_simple_2 = Implicit"
| "copy_constructor WorldTask_simple_2 = Implicit"
| "copy_constructor Task_part_001 = Deleted"
| "copy_constructor Task_template = Deleted"

fun copy_assignment :: "task_class \<Rightarrow> member" where
  "copy_assignment Task_simple_1 = Deleted"
| "copy_assignment Task_part_000 = Deleted"
| "copy_assignment Task_simple_2 = Implicit"
| "copy_assignment WorldTask_simple_2 = Implicit"
| "copy_assignment Task_part_001 = Deleted"
| "copy_assignment Task_template = Deleted"

fun move_constructor :: "task_class \<Rightarrow> member" where
  "move_constructor Task_simple_1 = User_provided"
| "move_constructor Task_part_000 = User_provided"
| "move_constructor c = Not_declared"

fun move_assignment :: "task_class \<Rightarrow> member" where
  "move_assignment Task_simple_1 = User_provided"
| "move_assignment Task_part_000 = User_provided"
| "move_assignment Task_part_001 = Deleted"
| "move_assignment Task_template = Deleted"
| "move_assignment c = Not_declared"

text \<open>
  A task object is a task together with the class it is an object of (\<open>RecTask\<close> stands
  for \<^verbatim>\<open>Task\<close> of \<^verbatim>\<open>part_000\<close> and of \<^verbatim>\<open>part_001\<close>, which differ here). Task objects live at
  addresses, so that \<^verbatim>\<open>this != &other\<close> can be tested. A use of a deleted function and an
  assignment between objects of two classes are rejected by the compiler
  (\<open>Deleted_function\<close>, \<open>Ill_formed\<close>); \<^verbatim>\<open>destroy()\<close> on \<^verbatim>\<open>nullptr\<close> or on a frame that is gone
  is undefined.
\<close>

record task_object = task +
  tclass :: task_class

datatype task_error = Deleted_function | Ill_formed | Undefined_behaviour

record objects =
  heap :: store
  tasks :: "nat \<Rightarrow> task_object option"

text \<open>\<^verbatim>\<open>h.destroy()\<close> releases the frame; on the no-op handle it does nothing.\<close>

definition destroy :: "store \<Rightarrow> handle \<Rightarrow> store option" where
  "destroy s h =
     (case h of
        Null \<Rightarrow> None
      | Noop \<Rightarrow> Some s
      | Frame a \<Rightarrow>
          (case frames s a of
             None \<Rightarrow> None
           | Some f \<Rightarrow> Some (s\<lparr>frames := (frames s)(a := None)\<rparr>)))"

text \<open>
  Construction of a new object at \<open>this\<close> from the lvalue \<open>other\<close>: the implicit copy
  constructor copies the member \<^verbatim>\<open>coroutine\<close> and leaves \<open>other\<close> as it is.
\<close>

definition Task_copy_constructor :: "objects \<Rightarrow> nat \<Rightarrow> nat \<Rightarrow> task_error + objects" where
  "Task_copy_constructor m this other =
     (case tasks m other of
        None \<Rightarrow> Inl Undefined_behaviour
      | Some U \<Rightarrow>
          (case copy_constructor (tclass U) of
             Implicit \<Rightarrow>
               (if this = other \<or> tasks m this \<noteq> None then Inl Undefined_behaviour
                else Inr (m\<lparr>tasks := (tasks m)(this := Some U)\<rparr>))
           | _ \<Rightarrow> Inl Deleted_function))"

text \<open>
  Assignment of the lvalue \<open>other\<close> to \<open>this\<close>: the implicit copy assignment assigns the
  member \<^verbatim>\<open>coroutine\<close>; the frame \<open>this\<close> held is not destroyed.
\<close>

definition Task_copy_assignment :: "objects \<Rightarrow> nat \<Rightarrow> nat \<Rightarrow> task_error + objects" where
  "Task_copy_assignment m this other =
     (case tasks m this of
        None \<Rightarrow> Inl Undefined_behaviour
      | Some T \<Rightarrow>
          (case tasks m other of
             None \<Rightarrow> Inl Undefined_behaviour
           | Some U \<Rightarrow>
               (if tclass T \<noteq> tclass U then Inl Ill_formed
                else (case copy_assignment (tclass T) of
                        Implicit \<Rightarrow>
                          Inr (m\<lparr>tasks := (tasks m)
                                  (this := Some (T\<lparr>coroutine := coroutine U\<rparr>))\<rparr>)
                      | _ \<Rightarrow> Inl Deleted_function))))"

text \<open>
  Construction of a new object at \<open>this\<close> from the rvalue \<open>other\<close>. Where the class
  defines it, the move constructor is
  \<^verbatim>\<open>Task(Task &&other) : coroutine(other.coroutine) { other.coroutine = nullptr; }\<close>;
  where the class declares none, the copy constructor is selected.
\<close>

definition Task_move_constructor :: "objects \<Rightarrow> nat \<Rightarrow> nat \<Rightarrow> task_error + objects" where
  "Task_move_constructor m this other =
     (case tasks m other of
        None \<Rightarrow> Inl Undefined_behaviour
      | Some U \<Rightarrow>
          (case move_constructor (tclass U) of
             User_provided \<Rightarrow>
               (if this = other \<or> tasks m this \<noteq> None then Inl Undefined_behaviour
                else Inr (m\<lparr>tasks := (tasks m)
                            (this := Some (U\<lparr>coroutine := coroutine U\<rparr>),
                             other := Some (U\<lparr>coroutine := Null\<rparr>))\<rparr>))
           | Not_declared \<Rightarrow> Task_copy_constructor m this other
           | _ \<Rightarrow> Inl Deleted_function))"

text \<open>
  Assignment of the rvalue \<open>other\<close> to \<open>this\<close>: the move assignment where the class
  defines it, rejected where the class deletes it, the copy assignment where the class
  declares none.
\<close>

definition Task_move_assignment :: "objects \<Rightarrow> nat \<Rightarrow> nat \<Rightarrow> task_error + objects" where
  "Task_move_assignment m this other =
     (case tasks m this of
        None \<Rightarrow> Inl Undefined_behaviour
      | Some T \<Rightarrow>
          (case tasks m other of
             None \<Rightarrow> Inl Undefined_behaviour
           | Some U \<Rightarrow>
               (if tclass T \<noteq> tclass U then Inl Ill_formed
                else (case move_assignment (tclass T) of
                        User_provided \<Rightarrow>
                          (if this \<noteq> other
                           then (if coroutine T \<noteq> Null
                                 then (case destroy (heap m) (coroutine T) of
                                         None \<Rightarrow> Inl Undefined_behaviour
                                       | Some s \<Rightarrow>
                                           Inr (m\<lparr>heap := s,
                                                   tasks := (tasks m)
                                                     (this := Some (T\<lparr>coroutine := coroutine U\<rparr>),
                                                      other := Some (U\<lparr>coroutine := Null\<rparr>))\<rparr>))
                                 else Inr (m\<lparr>tasks := (tasks m)
                                             (this := Some (T\<lparr>coroutine := coroutine U\<rparr>),
                                              other := Some (U\<lparr>coroutine := Null\<rparr>))\<rparr>))
                           else Inr m)
                      | Not_declared \<Rightarrow> Task_copy_assignment m this other
                      | _ \<Rightarrow> Inl Deleted_function))))"

text \<open>The destructor, the same in the six classes.\<close>

definition Task_destructor :: "objects \<Rightarrow> nat \<Rightarrow> task_error + objects" where
  "Task_destructor m this =
     (case tasks m this of
        None \<Rightarrow> Inl Undefined_behaviour
      | Some T \<Rightarrow>
          (if coroutine T \<noteq> Null
           then (case destroy (heap m) (coroutine T) of
                   None \<Rightarrow> Inl Undefined_behaviour
                 | Some s \<Rightarrow> Inr (m\<lparr>heap := s, tasks := (tasks m)(this := None)\<rparr>))
           else Inr (m\<lparr>tasks := (tasks m)(this := None)\<rparr>)))"

text \<open>
  Exclusive ownership: no two task objects hold the same frame, and a task object
  holds \<^verbatim>\<open>nullptr\<close> or a frame that is live.
\<close>

definition exclusive :: "objects \<Rightarrow> bool" where
  "exclusive m \<longleftrightarrow>
     (\<forall>i j T U a. tasks m i = Some T \<longrightarrow> tasks m j = Some U \<longrightarrow>
        coroutine T = Frame a \<longrightarrow> coroutine U = Frame a \<longrightarrow> i = j)"

definition owned_live :: "objects \<Rightarrow> bool" where
  "owned_live m \<longleftrightarrow>
     (\<forall>i T. tasks m i = Some T \<longrightarrow>
        (case coroutine T of Frame a \<Rightarrow> frames (heap m) a \<noteq> None | Noop \<Rightarrow> False | Null \<Rightarrow> True))"

definition owns_exclusively :: "objects \<Rightarrow> bool" where
  "owns_exclusively m \<longleftrightarrow> exclusive m \<and> owned_live m"

text \<open>\<open>released s h s'\<close>: \<open>s'\<close> is \<open>s\<close> without the frame of \<open>h\<close> (all of \<open>s\<close> when \<open>h\<close> is null).\<close>

definition released :: "store \<Rightarrow> handle \<Rightarrow> store \<Rightarrow> bool" where
  "released s h s' \<longleftrightarrow>
     next_frame s' = next_frame s
   \<and> (\<forall>a. frames s' a = (if h = Frame a then None else frames s a))"

text \<open>
  Two task objects of the recursive program, of class \<open>c\<close> (\<open>Task_part_000\<close> or
  \<open>Task_part_001\<close>), at addresses 0 and 1, owning the frames 0 and 1 of \<open>two_frames\<close>.
\<close>

definition two_tasks :: "task_class \<Rightarrow> objects" where
  "two_tasks c =
     \<lparr>heap = two_frames,
      tasks = (\<lambda>i. None)
        (0 := Some \<lparr>ttype = RecTask, coroutine = Frame 0, tclass = c\<rparr>,
         1 := Some \<lparr>ttype = RecTask, coroutine = Frame 1, tclass = c\<rparr>)\<rparr>"

text \<open>
  One \<^verbatim>\<open>Task\<close> object of the second program of \<^verbatim>\<open>simple-task.cc\<close>, at address 0, owning
  the frame of \<^verbatim>\<open>hello()\<close>.
\<close>

definition hello_task :: objects where
  "hello_task =
     \<lparr>heap = snd (create empty_store HelloTask hello),
      tasks = (\<lambda>i. None)
        (0 := Some \<lparr>ttype = HelloTask, coroutine = Frame 0, tclass = Task_simple_2\<rparr>)\<rparr>"

section \<open>The scheduler's \<^verbatim>\<open>Loop\<close>\<close>

text \<open>
  \<^verbatim>\<open>Loop::TimerEntry\<close>: an expiry time (a \<^verbatim>\<open>steady_clock::time_point\<close>, here its tick
  count) and a handle; \<^verbatim>\<open>operator>\<close> compares the expiry times only.
\<close>

record TimerEntry =
  expire_time :: int
  handle :: handle

definition TimerEntry_greater :: "TimerEntry \<Rightarrow> TimerEntry \<Rightarrow> bool" where
  "TimerEntry_greater e other \<longleftrightarrow> expire_time e > expire_time other"

text \<open>
  \<^verbatim>\<open>ready_tasks\<close> is a \<^verbatim>\<open>std::queue\<close>, \<^verbatim>\<open>timers\<close> a
  \<^verbatim>\<open>std::priority_queue<TimerEntry, std::vector<TimerEntry>, std::greater<>>\<close>, held here
  as its underlying vector.
\<close>

record Loop =
  ready_tasks :: "handle list"
  timers :: "TimerEntry list"

text \<open>
  A \<^verbatim>\<open>std::priority_queue\<close> keeps its vector as a binary heap: \<^verbatim>\<open>push\<close> is \<^verbatim>\<open>push_back\<close>
  followed by \<^verbatim>\<open>std::push_heap\<close>, \<^verbatim>\<open>pop\<close> is \<^verbatim>\<open>std::pop_heap\<close> followed by \<^verbatim>\<open>pop_back\<close>, and
  \<^verbatim>\<open>top\<close> is the first element. The two heap algorithms are not code of the repository;
  they are written as the GNU C++ library has them, with \<^verbatim>\<open>std::greater<>\<close> (that is,
  \<^verbatim>\<open>TimerEntry::operator>\<close>) as the comparison:
  \<^item> \<open>push_heap_at\<close> (\<^verbatim>\<open>__push_heap\<close> with top index 0) moves the hole up while the entry
    above it is greater than the value, then stores the value;
  \<^item> \<open>adjust_heap\<close> (\<^verbatim>\<open>__adjust_heap\<close> from hole 0) moves the hole down to a leaf, each time
    to the right child unless that is greater than the left one, then pushes the value
    up from there;
  \<^item> \<open>pop_heap\<close> saves the last entry, stores the first in its place and adjusts the
    heap before it.
\<close>

definition parent :: "nat \<Rightarrow> nat" where
  "parent i = (i - 1) div 2"

function push_heap_at :: "TimerEntry list \<Rightarrow> nat \<Rightarrow> TimerEntry \<Rightarrow> TimerEntry list" where
  "push_heap_at c hole v =
     (if 0 < hole \<and> TimerEntry_greater (c ! parent hole) v
      then push_heap_at (c[hole := c ! parent hole]) (parent hole) v
      else c[hole := v])"
  by pat_completeness auto
termination
  by (relation "measure (\<lambda>(c, hole, v). hole)") (auto simp: parent_def)

declare push_heap_at.simps [simp del]

definition push_heap :: "TimerEntry list \<Rightarrow> TimerEntry list" where
  "push_heap c = (if c = [] then c else push_heap_at c (length c - 1) (last c))"

definition lower_child :: "TimerEntry list \<Rightarrow> nat \<Rightarrow> nat" where
  "lower_child c hole =
     (if TimerEntry_greater (c ! (2 * (hole + 1))) (c ! (2 * (hole + 1) - 1))
      then 2 * (hole + 1) - 1 else 2 * (hole + 1))"

function adjust_heap_down :: "TimerEntry list \<Rightarrow> nat \<Rightarrow> nat \<Rightarrow> TimerEntry list \<times> nat" where
  "adjust_heap_down c hole len =
     (if hole < (len - 1) div 2
      then adjust_heap_down (c[hole := c ! lower_child c hole]) (lower_child c hole) len
      else (c, hole))"
  by pat_completeness auto
termination
  by (relation "measure (\<lambda>(c, hole, len). len - hole)") (auto simp: lower_child_def)

declare adjust_heap_down.simps [simp del]

definition adjust_heap :: "TimerEntry list \<Rightarrow> nat \<Rightarrow> TimerEntry \<Rightarrow> TimerEntry list" where
  "adjust_heap c len v =
     (case adjust_heap_down c 0 len of
        (c', hole) \<Rightarrow>
          if even len \<and> hole = (len - 2) div 2
          then push_heap_at (c'[hole := c' ! (2 * (hole + 1) - 1)]) (2 * (hole + 1) - 1) v
          else push_heap_at c' hole v)"

definition pop_heap :: "TimerEntry list \<Rightarrow> TimerEntry list" where
  "pop_heap c =
     (if 1 < length c
      then adjust_heap (c[length c - 1 := c ! 0]) (length c - 1) (c ! (length c - 1))
      else c)"

definition pq_push :: "TimerEntry list \<Rightarrow> TimerEntry \<Rightarrow> TimerEntry list" where
  "pq_push c x = push_heap (c @ [x])"

definition pq_pop :: "TimerEntry list \<Rightarrow> TimerEntry list" where
  "pq_pop c = butlast (pop_heap c)"

definition add_timer :: "Loop \<Rightarrow> int \<Rightarrow> handle \<Rightarrow> Loop" where
  "add_timer l time h = l\<lparr>timers := pq_push (timers l) \<lparr>expire_time = time, handle = h\<rparr>\<rparr>"

definition add_task :: "Loop \<Rightarrow> handle \<Rightarrow> Loop" where
  "add_task l h = l\<lparr>ready_tasks := ready_tasks l @ [h]\<rparr>"

definition new_Loop :: Loop where
  "new_Loop = \<lparr>ready_tasks = [], timers = []\<rparr>"

lemma length_push_heap_at [simp]: "length (push_heap_at c hole v) = length c"
  by (induction c hole v rule: push_heap_at.induct) (subst push_heap_at.simps, simp)

lemma length_adjust_heap_down [simp]: "length (fst (adjust_heap_down c hole len)) = length c"
  by (induction c hole len rule: adjust_heap_down.induct) (subst adjust_heap_down.simps, simp)

lemma length_pop_heap [simp]: "length (pop_heap c) = length c"
  by (simp add: pop_heap_def adjust_heap_def split: prod.splits)
     (metis fst_conv length_adjust_heap_down length_list_update)

text \<open>
  Modelled from the spec: \<^verbatim>\<open>Loop::run\<close> is not among the sources. This is the timer step of
  \<^verbatim>\<open>run()\<close> in the spec's words: ``pop all timer entries whose expiry is due (\<open>\<le>\<close> now)
  and move their frame references into the ready queue'', the top entry first.
\<close>

function fire_due :: "int \<Rightarrow> Loop \<Rightarrow> Loop" where
  "fire_due now l =
     (case timers l of
        [] \<Rightarrow> l
      | e # rest \<Rightarrow>
          if expire_time e \<le> now
          then fire_due now (l\<lparr>ready_tasks := ready_tasks l @ [handle e],
                                timers := pq_pop (timers l)\<rparr>)
          else l)"
  by pat_completeness auto
termination
  by (relation "measure (\<lambda>(now, l). length (timers l))") (auto simp: pq_pop_def)

declare fire_due.simps [simp del]

text \<open>Registering a list of timer entries, in the order of the list.\<close>

definition add_timers :: "Loop \<Rightarrow> TimerEntry list \<Rightarrow> Loop" where
  "add_timers l es = foldl (\<lambda>l e. add_timer l (expire_time e) (handle e)) l es"

text \<open>
  The heap property of the first \<open>n\<close> entries (no entry expires before the one above
  it), and the invariant of \<open>push_heap_at\<close>: the property holds except between the hole
  and the entry above it, and the entries below the hole come after the value and
  after the entry above the hole.
\<close>

definition heap_upto :: "nat \<Rightarrow> TimerEntry list \<Rightarrow> bool" where
  "heap_upto n c \<longleftrightarrow>
     (\<forall>i. 0 < i \<and> i < n \<longrightarrow> expire_time (c ! parent i) \<le> expire_time (c ! i))"

definition sift_inv :: "nat \<Rightarrow> TimerEntry list \<Rightarrow> nat \<Rightarrow> TimerEntry \<Rightarrow> bool" where
  "sift_inv n c hole v \<longleftrightarrow>
     (\<forall>i. 0 < i \<and> i < n \<and> i \<noteq> hole \<longrightarrow>
        expire_time (c ! parent i) \<le> expire_time (c ! i))
   \<and> (\<forall>i. 0 < i \<and> i < n \<and> parent i = hole \<longrightarrow>
        expire_time v \<le> expire_time (c ! i)
        \<and> (0 < hole \<longrightarrow> expire_time (c ! parent hole) \<le> expire_time (c ! i)))"

definition is_heap :: "TimerEntry list \<Rightarrow> bool" where
  "is_heap c \<longleftrightarrow> heap_upto (length c) c"

section \<open>Verified properties\<close>

subsection \<open>Auxiliary facts\<close>

lemma coro_done_simps:
  "coro_done s Null = None"
  "coro_done s Noop = Some False"
  "coro_done s (Frame a) =
     (case frames s a of None \<Rightarrow> None | Some f \<Rightarrow> Some (is_Final (point f)))"
  by (simp_all add: coro_done_def)

lemma two_frames_0:
  "frames two_frames 0 =
     Some \<lparr>kind = RecTask, promise = initial_promise, point = Initial (co_return 1)\<rparr>"
  by (simp add: two_frames_def create_def empty_store_def)

subsection \<open>A frame that nobody awaited\<close>


subsection \<open>Attaching a continuation\<close>

text \<open>
  Claim C6, as the code has it. Attaching a continuation is the plain assignment
  \<^verbatim>\<open>callee.promise().previous = caller\<close>: on every live frame it succeeds and stores the new
  caller, whatever the frame held before and whether or not the frame is complete.
\<close>

theorem attach_overwrites:
  assumes "frames s a = Some f"
  shows "set_previous s (Frame a) caller =
           Some (set_frame s a (f\<lparr>promise := (promise f)\<lparr>p_previous := caller\<rparr>\<rparr>))
       \<and> CalleeAwaiter_await_suspend s (Frame a) caller =
           Some (set_frame s a (f\<lparr>promise := (promise f)\<lparr>p_previous := caller\<rparr>\<rparr>), Frame a)
       \<and> Task_Awaiter_await_suspend s (Frame a) caller =
           Some (set_frame s a (f\<lparr>promise := (promise f)\<lparr>p_previous := caller\<rparr>\<rparr>), Frame a)
       \<and> previous_of (set_frame s a (f\<lparr>promise := (promise f)\<lparr>p_previous := caller\<rparr>\<rparr>))
           (Frame a) = Some caller"
  using assms
  by (simp add: set_previous_def CalleeAwaiter_await_suspend_def
        Task_Awaiter_await_suspend_def previous_of_def set_frame_def)

theorem attach_overwrites_witness:
  "frames two_frames 0 =
     Some \<lparr>kind = RecTask, promise = initial_promise, point = Initial (co_return 1)\<rparr>
   \<and> map_option snd (CalleeAwaiter_await_suspend two_frames (Frame 0) (Frame 1)) =
       Some (Frame 0)"
  using attach_overwrites
    [of two_frames 0
        "\<lparr>kind = RecTask, promise = initial_promise, point = Initial (co_return 1)\<rparr>"
        "Frame 1"]
  by (simp add: two_frames_0)

text \<open>
  The claim as stated fails: a second attach on the same frame is not rejected, and the
  continuation attached first (frame 1) is overwritten (by the no-op handle); an attach
  on a frame that is complete (frame 0 of \<open>await_done RecTask\<close>) is not rejected either.
\<close>

theorem attach_set_once_counterexample:
  "(case CalleeAwaiter_await_suspend two_frames (Frame 0) (Frame 1) of
      None \<Rightarrow> None
    | Some (s1, h1) \<Rightarrow>
        (case CalleeAwaiter_await_suspend s1 (Frame 0) Noop of
           None \<Rightarrow> None
         | Some (s2, h2) \<Rightarrow> Some (previous_of s1 (Frame 0), previous_of s2 (Frame 0))))
   = Some (Some (Frame 1), Some Noop)
   \<and> coro_done (await_done RecTask) (Frame 0) = Some True
   \<and> (case CalleeAwaiter_await_suspend (await_done RecTask) (Frame 0) (Frame 1) of
        None \<Rightarrow> None
      | Some (s1, h1) \<Rightarrow> previous_of s1 (Frame 0)) = Some (Frame 1)"
  by (simp add: CalleeAwaiter_await_suspend_def set_previous_def two_frames_0 set_frame_def
        previous_of_def await_done_def callee_done_def create_def empty_store_def
        coro_done_simps)

subsection \<open>Stores and single steps of the machine\<close>

lemma frames_set_frame [simp]:
  "frames (set_frame s a f) b = (if b = a then Some f else frames s b)"
  by (simp add: set_frame_def)

lemma next_frame_set_frame [simp]: "next_frame (set_frame s a f) = next_frame s"
  by (simp add: set_frame_def)

lemma frames_create [simp]:
  "frames (snd (create s k b)) c =
     (if c = next_frame s
      then Some \<lparr>kind = k, promise = initial_promise, point = Initial b\<rparr>
      else frames s c)"
  by (simp add: create_def)

lemma next_frame_create [simp]: "next_frame (snd (create s k b)) = Suc (next_frame s)"
  by (simp add: create_def)

lemma fst_create [simp]:
  "fst (create s k b) = \<lparr>ttype = k, coroutine = Frame (next_frame s)\<rparr>"
  by (simp add: create_def)

lemma frames_empty_store [simp]: "frames empty_store a = None"
  by (simp add: empty_store_def)

lemma next_frame_empty_store [simp]: "next_frame empty_store = 0"
  by (simp add: empty_store_def)

lemmas machine_defs = at_final_suspend_def at_yield_suspend_def completed_def
  return_value_def PreviousAwaiter_await_suspend_def climbs_up_def
  RepeatAwaiter_await_suspend_def coro_done_simps initial_promise_def get_value_def
  Task_value_def Task_done_def

lemma previous_target:
  assumes "previous = Null \<or> coro_done s previous \<noteq> None"
  shows "PreviousAwaiter_await_suspend s previous coro =
           Some (if (\<exists>p. previous = Frame p) \<and> coro_done s previous = Some False
                 then previous else Noop)"
  using assms
  by (cases previous)
     (auto simp: PreviousAwaiter_await_suspend_def climbs_up_def coro_done_simps
           split: option.splits bool.splits)

lemma exec_co_return:
  "frames s a = Some f \<Longrightarrow>
   exec (Suc j) s a (co_return v) =
     finish j (set_frame s a (completed f (return_value v (promise f)))) a"
  by (simp add: finish_def)

lemma resume_Initial:
  "frames s c = Some f \<Longrightarrow> point f = Initial b \<Longrightarrow>
   resume (Suc n) s (Frame c) = exec n s c b"
  by simp

lemma exec_co_await_RecTask:
  assumes "frames s a = Some f" and "frames s c = Some fc" and "a \<noteq> c"
  shows "exec (Suc n) s a (co_await \<lparr>ttype = RecTask, coroutine = Frame c\<rparr> k) =
           resume n
             (set_frame
                (set_frame s a
                   (f\<lparr>point := AtAwait \<lparr>ttype = RecTask, coroutine = Frame c\<rparr> k\<rparr>))
                c (fc\<lparr>promise := (promise fc)\<lparr>p_previous := Frame a\<rparr>\<rparr>))
             (Frame c)"
  using assms
  by (simp add: operator_co_await_def CalleeAwaiter_await_ready_def
        CalleeAwaiter_await_suspend_def set_previous_def)

lemma finish_into_previous:
  assumes "frames s c = Some fc" and "kind fc = RecTask"
    and "p_previous (promise fc) = Frame a" and "frames s a = Some fa"
    and "\<not> is_Final (point fa)"
  shows "finish n s c = resume n s (Frame a)"
  using assms
  by (simp add: finish_def at_final_suspend_def PreviousAwaiter_await_suspend_def
        climbs_up_def coro_done_simps)

lemma finish_top_level:
  assumes "frames s c = Some fc" and "kind fc = RecTask"
    and "p_previous (promise fc) = Noop"
  shows "finish (Suc n) s c = Some (Normal s)"
  using assms
  by (simp add: finish_def at_final_suspend_def PreviousAwaiter_await_suspend_def
        climbs_up_def coro_done_simps)

lemma resume_AtAwait_RecTask:
  assumes "frames s a = Some fa"
    and "point fa = AtAwait \<lparr>ttype = RecTask, coroutine = Frame c\<rparr> k"
    and "frames s c = Some fc"
  shows "resume (Suc n) s (Frame a) =
           exec n s a (k (case p_value (promise fc) of None \<Rightarrow> 0 | Some v \<Rightarrow> v))"
  using assms
  by (simp add: after_await_def after_awaiter_def operator_co_await_def
        CalleeAwaiter_await_resume_def get_value_def)

text \<open>The scenario stores are what running the machine produces.\<close>

lemma callee_done_reached:
  "k \<in> {RecTask, WorldTask, LoopTask} \<Longrightarrow>
   resume (Suc (Suc (Suc n))) (snd (create empty_store k (co_return 7))) (Frame 0) =
     Some (Normal (callee_done k))"
  by (auto simp add: callee_done_def machine_defs)

lemma callee_failed_reached:
  "k \<in> {RecTask, WorldTask, HelloTask} \<Longrightarrow>
   resume (Suc (Suc n)) (failed_frame k) (Frame 0) = Some (Raised ''boom'' (callee_failed k))"
  by (auto simp add: callee_failed_def failed_frame_def machine_defs)

subsection \<open>The return protocol\<close>






text \<open>The store \<open>awaiting_pair\<close> is what the machine reaches when frame 0 awaits frame 1.\<close>

lemma awaiting_pair_reached:
  "resume (Suc (Suc (Suc n)))
     (snd (create empty_store RecTask
        (call RecTask (co_return 2) (\<lambda>sub_task. co_await sub_task co_return))))
     (Frame 0) =
   resume n awaiting_pair (Frame 1)"
proof -
  have "set_frame
          (set_frame
             (snd (create
                (snd (create empty_store RecTask
                   (call RecTask (co_return 2) (\<lambda>sub_task. co_await sub_task co_return))))
                RecTask (co_return 2)))
             0 \<lparr>kind = RecTask, promise = initial_promise,
                 point = AtAwait \<lparr>ttype = RecTask, coroutine = Frame 1\<rparr> co_return\<rparr>)
          1 \<lparr>kind = RecTask, promise = initial_promise\<lparr>p_previous := Frame 0\<rparr>,
              point = Initial (co_return 2)\<rparr> = awaiting_pair"
    by (simp add: awaiting_pair_def create_def empty_store_def set_frame_def fun_eq_iff)
  then show ?thesis
    by (simp add: operator_co_await_def CalleeAwaiter_await_ready_def
          CalleeAwaiter_await_suspend_def set_previous_def)
qed


subsection \<open>The value of an await\<close>

text \<open>
  Claim C10, as the code has it. When the awaited frame holds no value,
  \<^verbatim>\<open>CalleeAwaiter::await_resume\<close> of the recursive program and
  \<^verbatim>\<open>WorldTask::CalleeAwaiter::await_resume\<close> return 0, and the awaiting body goes on with 0
  as the value of the \<^verbatim>\<open>co_await\<close> expression: nothing is raised.
\<close>

theorem await_resume_default:
  assumes "get_value s callee = Some None"
  shows "CalleeAwaiter_await_resume s callee = Some 0
       \<and> WorldTask_CalleeAwaiter_await_resume s callee = Some 0
       \<and> after_await s \<lparr>ttype = RecTask, coroutine = callee\<rparr> k = Some (k 0)
       \<and> after_await s \<lparr>ttype = WorldTask, coroutine = callee\<rparr> k = Some (k 0)"
  using assms
  by (simp add: CalleeAwaiter_await_resume_def WorldTask_CalleeAwaiter_await_resume_def
        after_await_def after_awaiter_def operator_co_await_def)

theorem await_resume_default_witness:
  "coro_done (callee_failed WorldTask) (Frame 0) = Some True
   \<and> get_value (callee_failed WorldTask) (Frame 0) = Some None
   \<and> WorldTask_CalleeAwaiter_await_resume (callee_failed WorldTask) (Frame 0) = Some 0
   \<and> after_await (callee_failed WorldTask) \<lparr>ttype = WorldTask, coroutine = Frame 0\<rparr>
        co_return = Some (co_return 0)"
proof -
  have v: "get_value (callee_failed WorldTask) (Frame 0) = Some None"
    by (simp add: callee_failed_def get_value_def initial_promise_def)
  have d: "coro_done (callee_failed WorldTask) (Frame 0) = Some True"
    by (simp add: callee_failed_def coro_done_simps)
  show ?thesis
    using await_resume_default [OF v, of co_return] v d by simp
qed

text \<open>
  The claim as stated fails for an await through \<^verbatim>\<open>Task<T>::Awaiter\<close>, whose
  \<^verbatim>\<open>await_resume\<close> has no default: frame 0 awaits frame 1, which completes with an empty
  value slot (its body threw); the await resumes and raises the stored error in the body
  of frame 0, which therefore completes with an error stored and no value, where the
  default 0 would have made it return 0.
\<close>

theorem await_raises_counterexample:
  "(case resume 8 await_failed (Frame 0) of
      Some (Normal s') \<Rightarrow>
        Some (coro_done s' (Frame 1), get_value s' (Frame 1),
              Task_Awaiter_await_resume False s' (Frame 1),
              get_value s' (Frame 0), stored_exception s' (Frame 0))
    | _ \<Rightarrow> None) =
   Some (Some True, Some None, Some (Inl ''boom''), Some None, Some (Some ''boom''))"
  by (simp add: await_failed_def machine_defs eval_nat_numeral stored_exception_def
        Task_Awaiter_await_ready_def Task_Awaiter_await_suspend_def set_previous_def
        after_awaiter_def Task_Awaiter_await_resume_def Promise_result_def)

subsection \<open>Awaiting a frame that is complete\<close>

text \<open>
  Claim C4, as the code has it. An await on a \<^verbatim>\<open>WorldTask\<close> whose frame is complete does
  not suspend and transfers nothing: \<^verbatim>\<open>await_ready()\<close> is true, the stored value (0 when
  there is none) is read at once and the awaiting body goes on in the same store. The
  \<^verbatim>\<open>CalleeAwaiter\<close> of the recursive program and \<^verbatim>\<open>Task<T>::Awaiter\<close> answer
  \<^verbatim>\<open>await_ready() = false\<close> whatever the state of the awaited frame.
\<close>

theorem await_ready_short_circuit:
  assumes "frames s a = Some f" and "coro_done s callee = Some True"
    and "get_value s callee = Some val"
  shows "WorldTask_CalleeAwaiter_await_ready s callee = Some True
       \<and> exec (Suc n) s a (co_await \<lparr>ttype = WorldTask, coroutine = callee\<rparr> k) =
           exec n s a (k (case val of None \<Rightarrow> 0 | Some v \<Rightarrow> v))
       \<and> await_ready s (CalleeAwaiter callee) = Some False
       \<and> await_ready s (Task_Awaiter callee) = Some False"
  using assms
  by (auto simp: WorldTask_CalleeAwaiter_await_ready_def operator_co_await_def
        after_await_def after_awaiter_def WorldTask_CalleeAwaiter_await_resume_def
        coro_done_simps
        CalleeAwaiter_await_ready_def Task_Awaiter_await_ready_def)

theorem await_ready_short_circuit_witness:
  "exec (Suc 2) (await_done WorldTask) 1
       (co_await \<lparr>ttype = WorldTask, coroutine = Frame 0\<rparr> co_return) =
     exec 2 (await_done WorldTask) 1 (co_return 7)
   \<and> (case exec 2 (await_done WorldTask) 1 (co_return 7) of
         Some (Normal s) \<Rightarrow> get_value s (Frame 1)
       | _ \<Rightarrow> None) = Some (Some 7)"
proof -
  have h1: "frames (await_done WorldTask) 1 =
      Some \<lparr>kind = HelloTask, promise = initial_promise,
            point = Initial (co_await \<lparr>ttype = WorldTask, coroutine = Frame 0\<rparr> co_return)\<rparr>"
    by (simp add: await_done_def callee_done_def)
  have h2: "coro_done (await_done WorldTask) (Frame 0) = Some True"
    by (simp add: await_done_def callee_done_def coro_done_simps)
  have h3: "get_value (await_done WorldTask) (Frame 0) = Some (Some 7)"
    by (simp add: await_done_def callee_done_def get_value_def)
  have h4: "(case exec 2 (await_done WorldTask) 1 (co_return 7) of
               Some (Normal s) \<Rightarrow> get_value s (Frame 1)
             | _ \<Rightarrow> None) = Some (Some 7)"
    using h1 by (simp add: machine_defs eval_nat_numeral)
  show ?thesis
    using await_ready_short_circuit [OF h1 h2 h3, of 2 co_return] h4 by simp
qed

text \<open>
  The claim as stated fails in the recursive program: frame 0 is complete, yet the await
  of frame 1 on it suspends (\<^verbatim>\<open>await_ready()\<close> is false) and
  \<^verbatim>\<open>await_suspend\<close> hands control to the complete frame, which must not be resumed.
\<close>

theorem await_complete_counterexample:
  "coro_done (await_done RecTask) (Frame 0) = Some True
   \<and> await_ready (await_done RecTask) (CalleeAwaiter (Frame 0)) = Some False
   \<and> map_option snd
        (CalleeAwaiter_await_suspend (await_done RecTask) (Frame 0) (Frame 1)) =
       Some (Frame 0)
   \<and> resume 4 (await_done RecTask) (Frame 1) = Some Undefined"
  by (simp add: await_done_def callee_done_def machine_defs eval_nat_numeral
        operator_co_await_def CalleeAwaiter_await_ready_def CalleeAwaiter_await_suspend_def
        set_previous_def)

subsection \<open>Errors raised by a body\<close>

text \<open>
  Claim C3, as the code has it. When the body of frame \<open>a\<close> raises \<open>e\<close>:
  \<^item> under the promise of the scheduler program, \<^verbatim>\<open>unhandled_exception()\<close> stores the
    error in the frame, the frame completes and control passes as in the return protocol
    (nothing leaves \<^verbatim>\<open>resume()\<close> at this step); the error is raised again by
    \<^verbatim>\<open>result()\<close> of the primary template \<^verbatim>\<open>Promise<T>\<close> and by
    \<^verbatim>\<open>Task<T>::Awaiter::await_resume\<close> at a \<open>T\<close> that is not \<^verbatim>\<open>void\<close>, the read of the
    awaiting frame, whose body goes on with the error raised at its await;
  \<^item> under every other promise type, \<^verbatim>\<open>unhandled_exception()\<close> executes \<^verbatim>\<open>throw;\<close>: the
    error leaves \<^verbatim>\<open>resume()\<close> at once, with the frame parked at its final point and
    nothing stored.

  The reads of the specialisation \<^verbatim>\<open>Promise<void>\<close> are not part of the statement.
\<close>

theorem error_capture:
  fixes s :: store and a :: nat and f :: frame and e :: exn
  defines "s1 \<equiv> set_frame s a (completed f ((promise f)\<lparr>p_exception := Some e\<rparr>))"
  assumes "frames s a = Some f"
    and "p_previous (promise f) = Null \<or> coro_done s1 (p_previous (promise f)) \<noteq> None"
  shows "(kind f = LoopTask \<longrightarrow>
            exec (Suc n) s a (throw e) =
              resume n s1 (if (\<exists>p. p_previous (promise f) = Frame p)
                              \<and> coro_done s1 (p_previous (promise f)) = Some False
                           then p_previous (promise f) else Noop)
            \<and> coro_done s1 (Frame a) = Some True
            \<and> stored_exception s1 (Frame a) = Some (Some e)
            \<and> Promise_result ((promise f)\<lparr>p_exception := Some e\<rparr>) = Inl e
            \<and> Task_Awaiter_await_resume False s1 (Frame a) = Some (Inl e)
            \<and> after_awaiter s1 (Task_Awaiter (Frame a)) k = Some (throw e)
            \<and> (\<forall>p fp. p_previous (promise f) = Frame p \<and> frames s1 p = Some fp
                      \<and> point fp = AtAwaiter (Task_Awaiter (Frame a)) k \<longrightarrow>
                 exec (Suc (Suc n)) s a (throw e) = exec n s1 p (throw e)))
       \<and> (kind f \<noteq> LoopTask \<longrightarrow>
            exec (Suc n) s a (throw e) =
              Some (Raised e (set_frame s a (completed f (promise f))))
            \<and> stored_exception (set_frame s a (completed f (promise f))) (Frame a) =
                Some (p_exception (promise f)))"
proof (cases "kind f")
  case LoopTask
  have fs: "final_suspend (kind (completed f ((promise f)\<lparr>p_exception := Some e\<rparr>)))
              (promise (completed f ((promise f)\<lparr>p_exception := Some e\<rparr>))) =
            PreviousAwaiter (p_previous (promise f))"
    using LoopTask by (simp add: completed_def)
  have run: "exec (Suc j) s a (throw e) =
      resume j s1 (if (\<exists>p. p_previous (promise f) = Frame p)
                      \<and> coro_done s1 (p_previous (promise f)) = Some False
                   then p_previous (promise f) else Noop)" for j
    using LoopTask assms(2) previous_target [OF assms(3), of "Frame a"]
    by (simp add: s1_def [symmetric] at_final_suspend_def fs)
  have rest: "coro_done s1 (Frame a) = Some True"
    "stored_exception s1 (Frame a) = Some (Some e)"
    "Promise_result ((promise f)\<lparr>p_exception := Some e\<rparr>) = Inl e"
    "Task_Awaiter_await_resume False s1 (Frame a) = Some (Inl e)"
    "after_awaiter s1 (Task_Awaiter (Frame a)) k = Some (throw e)"
    by (simp_all add: s1_def completed_def coro_done_simps stored_exception_def
          Promise_result_def Task_Awaiter_await_resume_def after_awaiter_def)
  have ascent: "exec (Suc (Suc n)) s a (throw e) = exec n s1 p (throw e)"
    if "p_previous (promise f) = Frame p \<and> frames s1 p = Some fp
        \<and> point fp = AtAwaiter (Task_Awaiter (Frame a)) k" for p fp
    using run [of "Suc n"] that rest(5)
    by (simp add: coro_done_simps del: exec.simps)
  show ?thesis
    using LoopTask run [of n] rest ascent by blast
qed (use assms(2) in \<open>simp_all add: stored_exception_def completed_def\<close>)

theorem error_capture_witness:
  "exec (Suc (Suc 0)) (failed_frame LoopTask) 0 (throw ''boom'') =
     Some (Normal (set_frame (failed_frame LoopTask) 0
        \<lparr>kind = LoopTask, promise = initial_promise\<lparr>p_exception := Some ''boom''\<rparr>,
          point = Final\<rparr>))
   \<and> exec (Suc (Suc 0)) (failed_frame RecTask) 0 (throw ''boom'') =
       Some (Raised ''boom'' (callee_failed RecTask))"
proof -
  have l: "frames (failed_frame LoopTask) 0 =
      Some \<lparr>kind = LoopTask, promise = initial_promise, point = Initial (throw ''boom'')\<rparr>"
    by (simp add: failed_frame_def)
  have r: "frames (failed_frame RecTask) 0 =
      Some \<lparr>kind = RecTask, promise = initial_promise, point = Initial (throw ''boom'')\<rparr>"
    by (simp add: failed_frame_def)
  have p: "p_previous (promise \<lparr>kind = k, promise = initial_promise,
              point = Initial (throw ''boom'')\<rparr>) = Null
         \<or> coro_done s' (p_previous (promise \<lparr>kind = k, promise = initial_promise,
              point = Initial (throw ''boom'')\<rparr>)) \<noteq> None" for k s'
    by (simp add: initial_promise_def coro_done_simps)
  show ?thesis
    using error_capture [OF l p, of "Suc 0"] error_capture [OF r p, of "Suc 0"]
    by (simp add: completed_def initial_promise_def callee_failed_def)
qed

text \<open>
  The claim as stated fails in the recursive program (and in both programs of
  \<^verbatim>\<open>simple-task.cc\<close>): the error of the body leaves \<^verbatim>\<open>resume()\<close>, and the frame stores
  no error.
\<close>

theorem error_rethrown_counterexample:
  "(case resume 2 (failed_frame RecTask) (Frame 0) of
      Some (Raised e s') \<Rightarrow> Some (e, coro_done s' (Frame 0), stored_exception s' (Frame 0))
    | _ \<Rightarrow> None) = Some (''boom'', Some True, Some None)"
  by (simp add: failed_frame_def machine_defs eval_nat_numeral stored_exception_def)

subsection \<open>The specialisation \<^verbatim>\<open>Promise<void>\<close>\<close>

text \<open>
  \<^verbatim>\<open>Task<void>::Awaiter::await_resume\<close> calls \<^verbatim>\<open>result()\<close> of \<^verbatim>\<open>Promise<void>\<close>, whose body is
  empty: on every live frame it returns, with no value, whatever the promise holds.
\<close>

lemma void_await_resume:
  "frames s a = Some f \<Longrightarrow>
   Promise_void_result (promise f) = Inr ()
   \<and> Task_Awaiter_await_resume True s (Frame a) = Some (Inr None)
   \<and> after_awaiter s (Task_void_Awaiter (Frame a)) k = Some (k 0)"
  by (simp add: Promise_void_result_def Task_Awaiter_await_resume_def after_awaiter_def)

text \<open>
  A coroutine of type \<^verbatim>\<open>Task<void>\<close> that calls another one and awaits it: one
  \<^verbatim>\<open>resume()\<close> completes both frames, and neither holds a value.
\<close>

lemma void_tasks_complete:
  "(case resume 8
           (snd (create empty_store LoopTask
              (call LoopTask co_return_void (\<lambda>sub_task.
                 co_await_awaiter (Task_void_Awaiter (coroutine sub_task))
                   (\<lambda>u. co_return_void)))))
           (Frame 0) of
      Some (Normal s') \<Rightarrow>
        Some (coro_done s' (Frame 0), coro_done s' (Frame 1),
              get_value s' (Frame 0), get_value s' (Frame 1))
    | _ \<Rightarrow> None) = Some (Some True, Some True, Some None, Some None)"
  by (simp add: machine_defs eval_nat_numeral return_void_def
        Task_Awaiter_await_ready_def Task_Awaiter_await_suspend_def set_previous_def
        after_awaiter_def Task_Awaiter_await_resume_def Promise_void_result_def)

subsection \<open>Yielding twice, then returning\<close>

text \<open>
  Claim C5, as the code has it. For a frame whose body yields \<open>v1\<close>, yields \<open>v2\<close> and
  returns \<open>v3\<close>:
  \<^item> when \<^verbatim>\<open>yield_value\<close> returns \<^verbatim>\<open>std::suspend_always\<close> (the template default of
    \<^verbatim>\<open>Promise<T, Awaiter>\<close>, and the promises of the second and of the recursive program),
    three calls of \<^verbatim>\<open>resume()\<close> expose \<open>v1\<close>, then \<open>v2\<close>, then complete the frame with
    \<open>v3\<close>, and \<^verbatim>\<open>done()\<close> is false until after the third;
  \<^item> with \<^verbatim>\<open>RepeatAwaiter\<close>, which \<^verbatim>\<open>Task::promise_type\<close> of the first program selects, each
    \<^verbatim>\<open>co_yield\<close> resumes the frame at once: the first \<^verbatim>\<open>resume()\<close> runs through both yields
    and completes the frame with \<open>v3\<close>.
\<close>

theorem yield_sequence:
  fixes s :: store and v1 v2 v3 :: int32 and k :: task_type
  defines "t \<equiv> fst (create s k (co_yield v1 (co_yield v2 (co_return v3))))"
    and "s0 \<equiv> snd (create s k (co_yield v1 (co_yield v2 (co_return v3))))"
  shows "(k \<noteq> LoopTask \<and> k \<noteq> SimpleTask RepeatAwaiter \<longrightarrow>
           (\<exists>s1 s2 s3.
              resume (Suc (Suc n)) s0 (coroutine t) = Some (Normal s1)
              \<and> Task_value s1 t = Some (Some v1) \<and> Task_done s1 t = Some False
              \<and> resume (Suc (Suc n)) s1 (coroutine t) = Some (Normal s2)
              \<and> Task_value s2 t = Some (Some v2) \<and> Task_done s2 t = Some False
              \<and> resume (Suc (Suc (Suc n))) s2 (coroutine t) = Some (Normal s3)
              \<and> Task_value s3 t = Some (Some v3) \<and> Task_done s3 t = Some True))
       \<and> (k = SimpleTask RepeatAwaiter \<longrightarrow>
           (\<exists>s1. resume (Suc (Suc (Suc (Suc (Suc (Suc n)))))) s0 (coroutine t) =
                   Some (Normal s1)
              \<and> Task_value s1 t = Some (Some v3) \<and> Task_done s1 t = Some True))"
proof (cases k)
  case (SimpleTask aw)
  then show ?thesis
    by (cases aw) (simp_all add: t_def s0_def machine_defs)
qed (simp_all add: t_def s0_def machine_defs)

theorem yield_sequence_witness:
  "(\<exists>s1 s2 s3.
      resume 2 (snd (create empty_store WorldTask world)) (Frame 0) = Some (Normal s1)
      \<and> get_value s1 (Frame 0) = Some (Some 1) \<and> coro_done s1 (Frame 0) = Some False
      \<and> resume 2 s1 (Frame 0) = Some (Normal s2)
      \<and> get_value s2 (Frame 0) = Some (Some 2) \<and> coro_done s2 (Frame 0) = Some False
      \<and> resume 3 s2 (Frame 0) = Some (Normal s3)
      \<and> get_value s3 (Frame 0) = Some (Some 42) \<and> coro_done s3 (Frame 0) = Some True)
   \<and> (\<exists>s1. resume 6 (snd (create empty_store (SimpleTask RepeatAwaiter) work)) (Frame 0) =
              Some (Normal s1)
         \<and> get_value s1 (Frame 0) = Some (Some 3) \<and> coro_done s1 (Frame 0) = Some True)"
  using yield_sequence [of WorldTask 0 empty_store 1 2 42]
    yield_sequence [of "SimpleTask RepeatAwaiter" 0 empty_store 1 2 3]
  by (simp add: world_def work_def Task_value_def Task_done_def eval_nat_numeral)

text \<open>
  The claim as stated fails on \<^verbatim>\<open>work()\<close> as \<^verbatim>\<open>simple-task.cc\<close> builds it: after the first
  \<^verbatim>\<open>resume()\<close> the frame is complete and holds 3.
\<close>

theorem work_first_resume_counterexample:
  "(case resume 6 (snd (create empty_store (SimpleTask RepeatAwaiter) work)) (Frame 0) of
      Some (Normal s1) \<Rightarrow> Some (get_value s1 (Frame 0), coro_done s1 (Frame 0))
    | _ \<Rightarrow> None) = Some (Some (Some 3), Some True)"
  by (simp add: work_def machine_defs eval_nat_numeral)

subsection \<open>The recursive program\<close>

text \<open>Reading a 32-bit \<^verbatim>\<open>int\<close> that is positive.\<close>

lemma sint_of_nat_small:
  "m < 2 ^ 31 \<Longrightarrow> sint (of_nat m :: int32) = int m"
  by (simp add: signed_of_nat signed_take_bit_int_eq_self)

lemma uint_eq_sint_nonneg:
  fixes n :: int32
  assumes "0 \<le> sint n"
  shows "uint n = sint n"
proof -
  have "sint n < 2 ^ 31" using sint_less [of n] by simp
  then have "sint n < 2 ^ 32" by simp
  then have "take_bit 32 (sint n) = sint n"
    using assms by (simp add: take_bit_int_eq_self)
  then show ?thesis by (simp add: uint_sint)
qed

lemma unat_of_positive:
  fixes n :: int32
  assumes "1 \<le>s n"
  shows "int (unat n) = sint n" and "0 < unat n" and "unat n < 2 ^ 31"
proof -
  have pos: "1 \<le> sint n" using assms by (simp add: word_sle_eq)
  then have eq: "uint n = sint n" by (intro uint_eq_sint_nonneg) simp
  show 1: "int (unat n) = sint n" using eq by simp
  show "0 < unat n" using 1 pos by linarith
  have "sint n < 2 ^ 31" using sint_less [of n] by simp
  then have "int (unat n) < 2 ^ 31" using 1 by simp
  then show "unat n < 2 ^ 31" by (simp add: nat_int_comparison(2))
qed

lemma fact_12_bound: "m \<le> 12 \<Longrightarrow> fact m < (2 ^ 31 :: nat)"
proof -
  assume "m \<le> 12"
  then have "fact m \<le> (fact 12 :: nat)" by (rule fact_mono)
  also have "(fact 12 :: nat) < 2 ^ 31" by (simp add: fact_numeral)
  finally show ?thesis .
qed

text \<open>The two branches of \<^verbatim>\<open>factorial(n)\<close>.\<close>

lemma factorial_base: "factorial 1 = co_return 1"
  by (simp add: factorial.simps word_sle_eq)

lemma factorial_step:
  assumes "Suc (Suc m) < 2 ^ 31"
  shows "factorial (of_nat (Suc (Suc m))) =
     call RecTask (factorial (of_nat (Suc m))) (\<lambda>sub_task.
       co_await sub_task (\<lambda>sub_result. co_return (of_nat (Suc (Suc m)) * sub_result)))"
proof -
  have "sint (of_nat (Suc (Suc m)) :: int32) = int (Suc (Suc m))"
    using assms by (rule sint_of_nat_small)
  then have "\<not> (of_nat (Suc (Suc m)) :: int32) \<le>s 1"
    by (simp add: word_sle_eq)
  moreover have "(of_nat (Suc (Suc m)) :: int32) - 1 = of_nat (Suc m)"
    by simp
  ultimately show ?thesis
    by (subst factorial.simps) (simp del: of_nat_Suc)
qed

text \<open>
  Running the body of \<^verbatim>\<open>factorial(m + 1)\<close> in frame \<open>a\<close> takes \<open>5 * m + 1\<close> steps down to
  the base case and back up to the final suspension of \<open>a\<close>, which then holds
  \<open>(m + 1)!\<close> (modulo \<open>2 ^ 32\<close>); the frames that existed before are left as they
  were.
\<close>

lemma factorial_exec:
  assumes "frames s a = Some f" and "kind f = RecTask" and "a < next_frame s"
    and "Suc m < 2 ^ 31"
  shows "\<exists>s'. (\<forall>j. exec (Suc (5 * m + j)) s a (factorial (of_nat (Suc m))) = finish j s' a)
            \<and> frames s' a =
                Some (completed f (return_value (of_nat (fact (Suc m))) (promise f)))
            \<and> (\<forall>b. b < next_frame s \<longrightarrow> b \<noteq> a \<longrightarrow> frames s' b = frames s b)"
  using assms
proof (induction m arbitrary: s a f)
  case 0
  let ?s' = "set_frame s a (completed f (return_value 1 (promise f)))"
  have "\<forall>j. exec (Suc (5 * 0 + j)) s a (factorial (of_nat (Suc 0))) = finish j ?s' a"
    using 0(1) by (simp add: factorial_base exec_co_return del: exec.simps)
  then show ?case
    by (intro exI [of _ ?s']) simp
next
  case (Suc m)
  let ?n = "of_nat (Suc (Suc m)) :: int32"
  let ?c = "next_frame s"
  let ?t = "\<lparr>ttype = RecTask, coroutine = Frame ?c\<rparr>"
  let ?K = "\<lambda>sub_result. co_return (?n * sub_result)"
  let ?fa = "f\<lparr>point := AtAwait ?t ?K\<rparr>"
  let ?fnew = "\<lparr>kind = RecTask, promise = initial_promise,
              point = Initial (factorial (of_nat (Suc m)))\<rparr>"
  let ?fc = "?fnew\<lparr>promise := (promise ?fnew)\<lparr>p_previous := Frame a\<rparr>\<rparr>"
  let ?s1 = "snd (create s RecTask (factorial (of_nat (Suc m))))"
  let ?s3 = "set_frame (set_frame ?s1 a ?fa) ?c ?fc"
  let ?v = "of_nat (fact (Suc m)) :: int32"
  let ?fdone = "completed ?fc (return_value ?v (promise ?fc))"
  have ac: "a \<noteq> ?c" using Suc.prems(3) by simp
  have small: "Suc m < 2 ^ 31" using Suc.prems(4) by simp
  have "frames ?s3 ?c = Some ?fc" "kind ?fc = RecTask" "?c < next_frame ?s3"
    by simp_all
  from Suc.IH [OF this small] obtain s4 where
    run: "\<And>j. exec (Suc (5 * m + j)) ?s3 ?c (factorial (of_nat (Suc m))) = finish j s4 ?c"
    and cdone: "frames s4 ?c = Some ?fdone"
    and rest: "\<And>b. b < next_frame ?s3 \<Longrightarrow> b \<noteq> ?c \<Longrightarrow> frames s4 b = frames ?s3 b"
    by blast
  have await_a: "frames s4 a = Some ?fa"
    using rest [of a] ac Suc.prems(3) by simp
  let ?s5 = "set_frame s4 a (completed ?fa (return_value (?n * ?v) (promise ?fa)))"
  have step: "exec (Suc (5 * Suc m + j)) s a (factorial ?n) = finish j ?s5 a" for j
  proof -
    have fuel: "Suc (5 * Suc m + j) = Suc (Suc (Suc (Suc (5 * m + Suc (Suc j)))))"
      by simp
    have f1: "frames ?s1 a = Some f" using Suc.prems(1) ac by simp
    have c1: "frames ?s1 ?c = Some ?fnew" by simp
    have "exec (Suc (5 * Suc m + j)) s a (factorial ?n) =
            exec (Suc (Suc (Suc (5 * m + Suc (Suc j))))) ?s1 a (co_await ?t ?K)"
      unfolding fuel factorial_step [OF Suc.prems(4)] exec.simps fst_create ..
    also have "\<dots> = resume (Suc (Suc (5 * m + Suc (Suc j)))) ?s3 (Frame ?c)"
      by (rule exec_co_await_RecTask [OF f1 c1 ac])
    also have "\<dots> = exec (Suc (5 * m + Suc (Suc j))) ?s3 ?c (factorial (of_nat (Suc m)))"
      by (rule resume_Initial [where f = ?fc]) simp_all
    also have "\<dots> = finish (Suc (Suc j)) s4 ?c"
      by (rule run)
    also have "\<dots> = resume (Suc (Suc j)) s4 (Frame a)"
      by (rule finish_into_previous [OF cdone _ _ await_a]) (simp_all add: completed_def return_value_def)
    also have "\<dots> = exec (Suc j) s4 a (?K (case p_value (promise ?fdone) of None \<Rightarrow> 0 | Some v \<Rightarrow> v))"
      by (rule resume_AtAwait_RecTask [OF await_a _ cdone]) simp
    also have "\<dots> = exec (Suc j) s4 a (co_return (?n * ?v))"
      by (simp only: completed_def return_value_def) simp
    also have "\<dots> = finish j ?s5 a"
      using await_a by (rule exec_co_return)
    finally show ?thesis .
  qed
  have val: "?n * ?v = of_nat (fact (Suc (Suc m)))"
    by (simp only: fact_Suc [of "Suc m"] of_nat_mult of_nat_id id_apply)
  have "frames ?s5 a =
          Some (completed f (return_value (of_nat (fact (Suc (Suc m)))) (promise f)))"
    unfolding val by (simp add: completed_def)
  moreover have "\<forall>b. b < next_frame s \<longrightarrow> b \<noteq> a \<longrightarrow> frames ?s5 b = frames s b"
    using rest by simp
  ultimately show ?case
    using step by (intro exI [of _ ?s5]) blast
qed

lemma factorial_single_resume_wraps:
  fixes n :: int32
  assumes "1 \<le>s n"
  shows "\<exists>s'. resume (5 * unat n + j) (snd (create s RecTask (factorial n)))
                 (coroutine (fst (create s RecTask (factorial n)))) = Some (Normal s')
            \<and> Task_done s' (fst (create s RecTask (factorial n))) = Some True
            \<and> Task_value s' (fst (create s RecTask (factorial n))) =
                Some (Some (of_nat (fact (unat n))))"
proof -
  let ?a = "next_frame s"
  let ?s0 = "snd (create s RecTask (factorial n))"
  let ?f = "\<lparr>kind = RecTask, promise = initial_promise, point = Initial (factorial n)\<rparr>"
  obtain m where m: "unat n = Suc m"
    using unat_of_positive(2) [OF assms] by (cases "unat n") simp_all
  have small: "Suc m < 2 ^ 31"
    using unat_of_positive(3) [OF assms] m by simp
  have n: "n = of_nat (Suc m)"
    using of_nat_unat [of n, where 'a = "int32"] m by (simp del: of_nat_Suc)
  have "frames ?s0 ?a = Some ?f" "kind ?f = RecTask" "?a < next_frame ?s0"
    by simp_all
  from factorial_exec [OF this small] obtain s' where
    run: "\<And>j. exec (Suc (5 * m + j)) ?s0 ?a (factorial (of_nat (Suc m))) = finish j s' ?a"
    and fin: "frames s' ?a =
       Some (completed ?f (return_value (of_nat (fact (Suc m))) (promise ?f)))"
    by blast
  have fuel: "5 * unat n + j = Suc (Suc (5 * m + Suc (Suc (Suc j))))"
    using m by simp
  have "resume (5 * unat n + j) ?s0 (Frame ?a) =
          exec (Suc (5 * m + Suc (Suc (Suc j)))) ?s0 ?a (factorial (of_nat (Suc m)))"
    unfolding fuel by (rule resume_Initial [where f = ?f]) (simp_all add: n del: of_nat_Suc)
  also have "\<dots> = finish (Suc (Suc (Suc j))) s' ?a"
    by (rule run)
  also have "\<dots> = Some (Normal s')"
    by (rule finish_top_level [OF fin]) (simp_all add: completed_def return_value_def initial_promise_def)
  finally have "resume (5 * unat n + j) ?s0 (Frame ?a) = Some (Normal s')" .
  moreover have "Task_done s' (fst (create s RecTask (factorial n))) = Some True"
    using fin by (simp add: Task_done_def coro_done_simps completed_def)
  moreover have "Task_value s' (fst (create s RecTask (factorial n))) =
      Some (Some (of_nat (fact (unat n))))"
    using fin by (simp add: Task_value_def get_value_def completed_def return_value_def m
          del: of_nat_Suc fact_Suc)
  ultimately show ?thesis
    by (simp) 
qed

text \<open>
  Claim C1, as the code has it. For every \<open>n\<close> from 1 to 12 (the values whose factorial
  fits the 32-bit \<^verbatim>\<open>int\<close> of \<^verbatim>\<open>factorial\<close>), one call of \<^verbatim>\<open>resume()\<close> on the task that
  \<^verbatim>\<open>factorial(n)\<close> returns runs the whole chain of nested awaits: it returns, the task
  is done and \<^verbatim>\<open>value()\<close> holds \<open>n!\<close>. Any bound of at least \<open>5 * n\<close> steps is enough.
\<close>

theorem factorial_single_resume:
  fixes n :: int32
  assumes "1 \<le>s n" and "n \<le>s 12"
  shows "\<exists>s'. resume (5 * unat n + j) (snd (create s RecTask (factorial n)))
                 (coroutine (fst (create s RecTask (factorial n)))) = Some (Normal s')
            \<and> Task_done s' (fst (create s RecTask (factorial n))) = Some True
            \<and> map_option (map_option sint) (Task_value s' (fst (create s RecTask (factorial n)))) =
                Some (Some (fact (nat (sint n))))"
proof -
  have "sint n \<le> 12" using assms(2) by (simp add: word_sle_eq)
  then have le: "unat n \<le> 12" using unat_of_positive(1) [OF assms(1)] by linarith
  have nat: "nat (sint n) = unat n" using unat_of_positive(1) [OF assms(1)] by linarith
  have "sint (of_nat (fact (unat n)) :: int32) = int (fact (unat n))"
    by (rule sint_of_nat_small) (rule fact_12_bound [OF le])
  then show ?thesis
    using factorial_single_resume_wraps [OF assms(1), of j s]
    by (auto simp add: nat)
qed

text \<open>\<^verbatim>\<open>factorial(5)\<close> yields 120 after one \<^verbatim>\<open>resume()\<close>, as \<^verbatim>\<open>main\<close> prints.\<close>

theorem factorial_single_resume_witness:
  "\<exists>s'. resume 25 (snd (create empty_store RecTask (factorial 5))) (Frame 0) = Some (Normal s')
      \<and> coro_done s' (Frame 0) = Some True
      \<and> map_option (map_option sint) (get_value s' (Frame 0)) = Some (Some 120)"
proof -
  have "(1 :: int32) \<le>s 5" "(5 :: int32) \<le>s 12"
    by (simp_all add: word_sle_eq)
  from factorial_single_resume [OF this, of 0 empty_store] show ?thesis
    by (simp add: Task_done_def Task_value_def empty_store_def fact_numeral)
qed

text \<open>
  The claim as stated (every \<open>n \<ge> 1\<close>) fails at \<open>n = 13\<close>: the single \<^verbatim>\<open>resume()\<close> still
  completes the task, but \<open>13! = 6227020800\<close> does not fit the \<^verbatim>\<open>int\<close>; with the
  product wrapping, \<^verbatim>\<open>value()\<close> holds 1932053504.
\<close>

theorem factorial_13_counterexample:
  "(\<exists>s'. resume 100 (snd (create empty_store RecTask (factorial 13))) (Frame 0) =
            Some (Normal s')
        \<and> coro_done s' (Frame 0) = Some True
        \<and> map_option (map_option sint) (get_value s' (Frame 0)) = Some (Some 1932053504))
   \<and> (1932053504 :: int) \<noteq> fact 13"
proof -
  have "(1 :: int32) \<le>s 13" by (simp add: word_sle_eq)
  from factorial_single_resume_wraps [OF this, of 35 empty_store]
  obtain s' where
    r: "resume 100 (snd (create empty_store RecTask (factorial 13))) (Frame 0) =
          Some (Normal s')"
    and d: "coro_done s' (Frame 0) = Some True"
    and v: "get_value s' (Frame 0) = Some (Some (of_nat (fact 13)))"
    by (auto simp add: Task_value_def Task_done_def)
  have "sint (of_nat (fact 13) :: int32) = 1932053504"
    by (simp add: fact_numeral)
  then show ?thesis
    using r d v by (auto simp add: fact_numeral)
qed

subsection \<open>Ownership of frames by task objects\<close>

lemma destroy_live:
  "frames s a = Some f \<Longrightarrow> destroy s (Frame a) = Some (s\<lparr>frames := (frames s)(a := None)\<rparr>)"
  by (simp add: destroy_def)

lemma exclusiveD:
  "exclusive m \<Longrightarrow> tasks m i = Some T \<Longrightarrow> tasks m j = Some U \<Longrightarrow>
   coroutine T = Frame a \<Longrightarrow> coroutine U = Frame a \<Longrightarrow> i = j"
  unfolding exclusive_def by blast

lemma owned_liveD:
  "owned_live m \<Longrightarrow> tasks m i = Some T \<Longrightarrow> coroutine T = Frame a \<Longrightarrow> \<exists>f. frames (heap m) a = Some f"
  unfolding owned_live_def by (fastforce split: handle.splits)

lemma owned_cases:
  "owned_live m \<Longrightarrow> tasks m i = Some T \<Longrightarrow>
   coroutine T = Null \<or> (\<exists>a f. coroutine T = Frame a \<and> frames (heap m) a = Some f)"
  unfolding owned_live_def by (fastforce split: handle.splits)

lemma move_constructor_ok:
  assumes inv: "owns_exclusively m" and o: "tasks m other = Some U" and t: "tasks m this = None"
    and c: "move_constructor (tclass U) = User_provided"
  shows "\<exists>m'. Task_move_constructor m this other = Inr m'
           \<and> tasks m' this = Some U
           \<and> map_option coroutine (tasks m' other) = Some Null
           \<and> heap m' = heap m
           \<and> owns_exclusively m'"
proof -
  have ne: "this \<noteq> other" using o t by auto
  let ?m' = "m\<lparr>tasks := (tasks m)(this := Some U, other := Some (U\<lparr>coroutine := Null\<rparr>))\<rparr>"
  have run: "Task_move_constructor m this other = Inr ?m'"
    using o t ne c by (simp add: Task_move_constructor_def)
  have ex: "exclusive m" and li: "owned_live m"
    using inv by (simp_all add: owns_exclusively_def)
  have "exclusive ?m'"
    unfolding exclusive_def
  proof (intro allI impI)
    fix i j T V a
    assume a: "tasks ?m' i = Some T" "tasks ?m' j = Some V"
      "coroutine T = Frame a" "coroutine V = Frame a"
    have i: "i \<noteq> other" and j: "j \<noteq> other" using a by auto
    have "tasks m (if i = this then other else i) = Some T"
      using a(1) i o by (auto split: if_splits)
    moreover have "tasks m (if j = this then other else j) = Some V"
      using a(2) j o by (auto split: if_splits)
    ultimately have "(if i = this then other else i) = (if j = this then other else j)"
      using exclusiveD [OF ex] a(3,4) by blast
    then show "i = j" using i j by (auto split: if_splits)
  qed
  moreover have "owned_live ?m'"
    using li o unfolding owned_live_def by (auto split: handle.splits if_splits)
  ultimately show ?thesis
    using run ne by (intro exI [of _ ?m']) (simp add: owns_exclusively_def)
qed

lemma owned_live_after_release:
  assumes ex: "exclusive m" and li: "owned_live m" and t: "tasks m this = Some T"
    and rel: "released (heap m) (coroutine T) s'"
    and upd: "heap m' = s'"
    and keep: "\<And>i V a. tasks m' i = Some V \<Longrightarrow> coroutine V = Frame a \<Longrightarrow>
                 \<exists>j W. j \<noteq> this \<and> tasks m j = Some W \<and> coroutine W = Frame a"
    and nonoop: "\<And>i V. tasks m' i = Some V \<Longrightarrow> coroutine V \<noteq> Noop"
  shows "owned_live m'"
  unfolding owned_live_def
proof (intro allI impI)
  fix i V
  assume v: "tasks m' i = Some V"
  show "case coroutine V of Null \<Rightarrow> True | Noop \<Rightarrow> False
        | Frame a \<Rightarrow> frames (heap m') a \<noteq> None"
  proof (cases "coroutine V")
    case (Frame a)
    from keep [OF v Frame] obtain j W where
      j: "j \<noteq> this" "tasks m j = Some W" "coroutine W = Frame a" by blast
    have "coroutine T \<noteq> Frame a"
      using exclusiveD [OF ex t j(2) _ j(3)] j(1) by auto
    moreover obtain f where "frames (heap m) a = Some f"
      using owned_liveD [OF li j(2,3)] by blast
    ultimately show ?thesis
      using rel Frame by (simp add: released_def upd)
  qed (use nonoop [OF v] in simp_all)
qed

lemma noop_free: "owned_live m \<Longrightarrow> tasks m i = Some T \<Longrightarrow> coroutine T \<noteq> Noop"
  unfolding owned_live_def by (fastforce split: handle.splits)

lemma destroy_owned:
  assumes li: "owned_live m" and t: "tasks m this = Some T" and nn: "coroutine T \<noteq> Null"
  shows "\<exists>s'. destroy (heap m) (coroutine T) = Some s' \<and> released (heap m) (coroutine T) s'"
proof -
  from owned_cases [OF li t] nn obtain a f where
    "coroutine T = Frame a" "frames (heap m) a = Some f" by blast
  then show ?thesis
    by (auto simp: destroy_def released_def)
qed

lemma released_Null: "released s Null s"
  by (simp add: released_def)

lemma destructor_ok:
  assumes inv: "owns_exclusively m" and t: "tasks m this = Some T"
  shows "\<exists>m'. Task_destructor m this = Inr m'
           \<and> tasks m' this = None
           \<and> released (heap m) (coroutine T) (heap m')
           \<and> owns_exclusively m'"
proof -
  have ex: "exclusive m" and li: "owned_live m"
    using inv by (simp_all add: owns_exclusively_def)
  obtain s' where s': "released (heap m) (coroutine T) s'"
    and run: "Task_destructor m this = Inr (m\<lparr>heap := s', tasks := (tasks m)(this := None)\<rparr>)"
  proof (cases "coroutine T = Null")
    case True
    have "Task_destructor m this = Inr (m\<lparr>heap := heap m, tasks := (tasks m)(this := None)\<rparr>)"
      using t True by (simp add: Task_destructor_def)
    then show ?thesis using that [of "heap m"] True released_Null by simp
  next
    case False
    from destroy_owned [OF li t False] obtain s' where
      "destroy (heap m) (coroutine T) = Some s'" "released (heap m) (coroutine T) s'" by blast
    then show ?thesis using that [of s'] t False by (simp add: Task_destructor_def)
  qed
  let ?m' = "m\<lparr>heap := s', tasks := (tasks m)(this := None)\<rparr>"
  have "exclusive ?m'"
    using ex unfolding exclusive_def by (auto split: if_splits)
  moreover have "owned_live ?m'"
  proof (rule owned_live_after_release [OF ex li t s'])
    show "heap ?m' = s'" by simp
  next
    fix i V a assume "tasks ?m' i = Some V" "coroutine V = Frame a"
    then show "\<exists>j W. j \<noteq> this \<and> tasks m j = Some W \<and> coroutine W = Frame a"
      by (auto split: if_splits)
  next
    fix i V assume "tasks ?m' i = Some V"
    then show "coroutine V \<noteq> Noop"
      using noop_free [OF li] by (auto split: if_splits)
  qed
  ultimately show ?thesis
    using run s' by (intro exI [of _ ?m']) (simp add: owns_exclusively_def)
qed

lemma move_assignment_ok:
  assumes inv: "owns_exclusively m" and t: "tasks m this = Some T"
    and o: "tasks m other = Some U" and ne: "this \<noteq> other"
    and c: "move_assignment (tclass T) = User_provided" and tc: "tclass T = tclass U"
  shows "\<exists>m'. Task_move_assignment m this other = Inr m'
           \<and> map_option coroutine (tasks m' this) = Some (coroutine U)
           \<and> map_option coroutine (tasks m' other) = Some Null
           \<and> released (heap m) (coroutine T) (heap m')
           \<and> owns_exclusively m'"
proof -
  have ex: "exclusive m" and li: "owned_live m"
    using inv by (simp_all add: owns_exclusively_def)
  have c': "move_assignment (tclass U) = User_provided" using c tc by simp
  let ?ts = "(tasks m)(this := Some (T\<lparr>coroutine := coroutine U\<rparr>),
                        other := Some (U\<lparr>coroutine := Null\<rparr>))"
  obtain s' where s': "released (heap m) (coroutine T) s'"
    and run: "Task_move_assignment m this other = Inr (m\<lparr>heap := s', tasks := ?ts\<rparr>)"
  proof (cases "coroutine T = Null")
    case True
    have "Task_move_assignment m this other = Inr (m\<lparr>heap := heap m, tasks := ?ts\<rparr>)"
      using t o ne True c' tc by (simp add: Task_move_assignment_def)
    then show ?thesis using that [of "heap m"] True released_Null by simp
  next
    case False
    from destroy_owned [OF li t False] obtain s' where
      "destroy (heap m) (coroutine T) = Some s'" "released (heap m) (coroutine T) s'" by blast
    then show ?thesis using that [of s'] t o ne False c' tc
      by (simp add: Task_move_assignment_def)
  qed
  let ?m' = "m\<lparr>heap := s', tasks := ?ts\<rparr>"
  have "exclusive ?m'"
    unfolding exclusive_def
  proof (intro allI impI)
    fix i j V W a
    assume a: "tasks ?m' i = Some V" "tasks ?m' j = Some W"
      "coroutine V = Frame a" "coroutine W = Frame a"
    have i: "i \<noteq> other" and j: "j \<noteq> other" using a by auto
    have "\<exists>V'. tasks m (if i = this then other else i) = Some V' \<and> coroutine V' = Frame a"
      using a(1,3) i o by (auto split: if_splits)
    moreover have "\<exists>W'. tasks m (if j = this then other else j) = Some W' \<and> coroutine W' = Frame a"
      using a(2,4) j o by (auto split: if_splits)
    ultimately have "(if i = this then other else i) = (if j = this then other else j)"
      using exclusiveD [OF ex] by blast
    then show "i = j" using i j by (auto split: if_splits)
  qed
  moreover have "owned_live ?m'"
  proof (rule owned_live_after_release [OF ex li t s'])
    show "heap ?m' = s'" by simp
  next
    fix i V a assume "tasks ?m' i = Some V" "coroutine V = Frame a"
    then show "\<exists>j W. j \<noteq> this \<and> tasks m j = Some W \<and> coroutine W = Frame a"
      using o ne by (auto split: if_splits)
  next
    fix i V assume "tasks ?m' i = Some V"
    then show "coroutine V \<noteq> Noop"
      using noop_free [OF li] o by (auto split: if_splits)
  qed
  ultimately show ?thesis
    using run s' ne by (intro exI [of _ ?m']) (simp add: owns_exclusively_def)
qed

lemma two_tasks_own: "owns_exclusively (two_tasks c)"
  by (auto simp: owns_exclusively_def exclusive_def owned_live_def two_tasks_def
        two_frames_def split: if_splits)

lemma movable_class:
  "c = Task_simple_1 \<or> c = Task_part_000 \<Longrightarrow>
   copy_constructor c = Deleted \<and> copy_assignment c = Deleted
   \<and> move_constructor c = User_provided \<and> move_assignment c = User_provided"
  by auto

lemma fixed_class:
  "c = Task_part_001 \<or> c = Task_template \<Longrightarrow>
   copy_constructor c = Deleted \<and> copy_assignment c = Deleted
   \<and> move_constructor c = Not_declared \<and> move_assignment c = Deleted"
  by auto

text \<open>
  Claim C8, as the code has it. Where every task object owns its frame exclusively:
  \<^item> for \<^verbatim>\<open>Task\<close> of the first program of \<^verbatim>\<open>simple-task.cc\<close> and of \<^verbatim>\<open>part_000\<close>, copy
    construction and copy assignment are rejected; the move constructor leaves the new
    object holding the frame and the source holding \<^verbatim>\<open>nullptr\<close>, releasing nothing; move
    assignment from another object releases the frame the target held (if any), leaves
    the target holding the source's frame and the source holding \<^verbatim>\<open>nullptr\<close>;
    assignment to itself changes nothing; each of them keeps ownership exclusive;
  \<^item> for \<^verbatim>\<open>Task\<close> of \<^verbatim>\<open>part_001\<close> and for \<^verbatim>\<open>Task<T>\<close>, copy and move construction and copy
    and move assignment are all rejected;
  \<^item> for every class, the destructor releases the frame the object holds when it holds
    one and nothing otherwise, and keeps ownership exclusive.
\<close>

theorem task_exclusive_ownership:
  assumes "owns_exclusively m"
  shows "(tasks m other = Some U \<and> (tclass U = Task_simple_1 \<or> tclass U = Task_part_000) \<longrightarrow>
            Task_copy_constructor m this other = Inl Deleted_function
          \<and> (tasks m this = None \<longrightarrow>
               (\<exists>m'. Task_move_constructor m this other = Inr m'
                  \<and> tasks m' this = Some U
                  \<and> map_option coroutine (tasks m' other) = Some Null
                  \<and> heap m' = heap m
                  \<and> owns_exclusively m'))
          \<and> (tasks m this = Some T \<and> tclass T = tclass U \<longrightarrow>
               Task_copy_assignment m this other = Inl Deleted_function)
          \<and> (tasks m this = Some T \<and> tclass T = tclass U \<and> this \<noteq> other \<longrightarrow>
               (\<exists>m'. Task_move_assignment m this other = Inr m'
                  \<and> map_option coroutine (tasks m' this) = Some (coroutine U)
                  \<and> map_option coroutine (tasks m' other) = Some Null
                  \<and> released (heap m) (coroutine T) (heap m')
                  \<and> owns_exclusively m'))
          \<and> Task_move_assignment m other other = Inr m)
       \<and> (tasks m other = Some U \<and> (tclass U = Task_part_001 \<or> tclass U = Task_template) \<longrightarrow>
            Task_copy_constructor m this other = Inl Deleted_function
          \<and> Task_move_constructor m this other = Inl Deleted_function
          \<and> (tasks m this = Some T \<and> tclass T = tclass U \<longrightarrow>
               Task_copy_assignment m this other = Inl Deleted_function
             \<and> Task_move_assignment m this other = Inl Deleted_function))
       \<and> (tasks m this = Some T \<longrightarrow>
            (\<exists>m'. Task_destructor m this = Inr m'
               \<and> tasks m' this = None
               \<and> released (heap m) (coroutine T) (heap m')
               \<and> owns_exclusively m'))"
proof (intro conjI impI)
  assume h: "tasks m other = Some U \<and> (tclass U = Task_simple_1 \<or> tclass U = Task_part_000)"
  then have o: "tasks m other = Some U" by simp
  note c = movable_class [OF conjunct2 [OF h]]
  show "Task_copy_constructor m this other = Inl Deleted_function"
    using o c by (simp add: Task_copy_constructor_def)
  show "Task_move_assignment m other other = Inr m"
    using o c by (simp add: Task_move_assignment_def)
  {
    assume "tasks m this = None"
    then show "\<exists>m'. Task_move_constructor m this other = Inr m'
                  \<and> tasks m' this = Some U
                  \<and> map_option coroutine (tasks m' other) = Some Null
                  \<and> heap m' = heap m
                  \<and> owns_exclusively m'"
      using move_constructor_ok [OF assms o] c by simp
  }
  {
    assume "tasks m this = Some T \<and> tclass T = tclass U"
    then show "Task_copy_assignment m this other = Inl Deleted_function"
      using o c by (simp add: Task_copy_assignment_def)
  }
  {
    assume "tasks m this = Some T \<and> tclass T = tclass U \<and> this \<noteq> other"
    then show "\<exists>m'. Task_move_assignment m this other = Inr m'
                  \<and> map_option coroutine (tasks m' this) = Some (coroutine U)
                  \<and> map_option coroutine (tasks m' other) = Some Null
                  \<and> released (heap m) (coroutine T) (heap m')
                  \<and> owns_exclusively m'"
      using move_assignment_ok [OF assms _ o, of this T] c by simp
  }
next
  assume h: "tasks m other = Some U \<and> (tclass U = Task_part_001 \<or> tclass U = Task_template)"
  then have o: "tasks m other = Some U" by simp
  note c = fixed_class [OF conjunct2 [OF h]]
  show "Task_copy_constructor m this other = Inl Deleted_function"
    using o c by (simp add: Task_copy_constructor_def)
  show "Task_move_constructor m this other = Inl Deleted_function"
    using o c by (simp add: Task_move_constructor_def Task_copy_constructor_def)
  {
    assume t: "tasks m this = Some T \<and> tclass T = tclass U"
    show "Task_copy_assignment m this other = Inl Deleted_function"
      using t o c by (simp add: Task_copy_assignment_def)
    show "Task_move_assignment m this other = Inl Deleted_function"
      using t o c by (simp add: Task_move_assignment_def)
  }
next
  assume "tasks m this = Some T"
  then show "\<exists>m'. Task_destructor m this = Inr m'
               \<and> tasks m' this = None
               \<and> released (heap m) (coroutine T) (heap m')
               \<and> owns_exclusively m'"
    using destructor_ok [OF assms] by simp
qed

theorem task_exclusive_ownership_witness:
  "(case Task_move_assignment (two_tasks Task_part_000) 0 1 of
      Inl e \<Rightarrow> None
    | Inr m' \<Rightarrow>
        Some (map_option coroutine (tasks m' 0), map_option coroutine (tasks m' 1),
              frames (heap m') 0 = None, frames (heap m') 1 = frames two_frames 1)) =
     Some (Some (Frame 1), Some Null, True, True)
   \<and> (case Task_destructor (two_tasks Task_part_000) 1 of
        Inl e \<Rightarrow> None
      | Inr m' \<Rightarrow> Some (tasks m' 1 = None, frames (heap m') 1 = None)) = Some (True, True)
   \<and> Task_move_constructor (two_tasks Task_part_001) 2 1 = Inl Deleted_function"
  using task_exclusive_ownership [OF two_tasks_own, of Task_part_000 1
      "\<lparr>ttype = RecTask, coroutine = Frame 1, tclass = Task_part_000\<rparr>" 0
      "\<lparr>ttype = RecTask, coroutine = Frame 0, tclass = Task_part_000\<rparr>"]
    task_exclusive_ownership [OF two_tasks_own, of Task_part_000 0
      "\<lparr>ttype = RecTask, coroutine = Frame 0, tclass = Task_part_000\<rparr>" 1
      "\<lparr>ttype = RecTask, coroutine = Frame 1, tclass = Task_part_000\<rparr>"]
    task_exclusive_ownership [OF two_tasks_own, of Task_part_001 1
      "\<lparr>ttype = RecTask, coroutine = Frame 1, tclass = Task_part_001\<rparr>" 2]
  by (auto simp: two_tasks_def released_def)

text \<open>
  The claim as stated fails for \<^verbatim>\<open>Task\<close> (and \<^verbatim>\<open>WorldTask\<close>) of the second program of
  \<^verbatim>\<open>simple-task.cc\<close>, which declare no copy or move operation: copying a task is accepted,
  construction from an rvalue copies as well and leaves the source holding the frame, and
  the destructor of the second of the two objects destroys a frame that is gone.
\<close>

theorem task_copy_counterexample:
  "(case Task_copy_constructor hello_task 1 0 of
      Inl e \<Rightarrow> None
    | Inr m' \<Rightarrow> Some (map_option coroutine (tasks m' 0), map_option coroutine (tasks m' 1))) =
     Some (Some (Frame 0), Some (Frame 0))
   \<and> (case Task_move_constructor hello_task 1 0 of
        Inl e \<Rightarrow> None
      | Inr m' \<Rightarrow> Some (map_option coroutine (tasks m' 0), map_option coroutine (tasks m' 1))) =
       Some (Some (Frame 0), Some (Frame 0))
   \<and> (case Task_copy_constructor hello_task 1 0 of
        Inl e \<Rightarrow> None
      | Inr m' \<Rightarrow>
          (case Task_destructor m' 0 of
             Inl e \<Rightarrow> None
           | Inr m'' \<Rightarrow> Some (Task_destructor m'' 1))) = Some (Inl Undefined_behaviour)"
  by (simp add: Task_copy_constructor_def Task_move_constructor_def Task_destructor_def
        hello_task_def destroy_def)

subsection \<open>The timer heap\<close>

lemma parent_less: "0 < i \<Longrightarrow> parent i < i"
  unfolding parent_def by arith

lemma heap_uptoD:
  "heap_upto n c \<Longrightarrow> 0 < i \<Longrightarrow> i < n \<Longrightarrow> expire_time (c ! parent i) \<le> expire_time (c ! i)"
  by (simp add: heap_upto_def)

lemma sift_inv_edge:
  "sift_inv n c hole v \<Longrightarrow> 0 < i \<Longrightarrow> i < n \<Longrightarrow> i \<noteq> hole \<Longrightarrow>
   expire_time (c ! parent i) \<le> expire_time (c ! i)"
  by (simp add: sift_inv_def)

lemma sift_inv_child:
  "sift_inv n c hole v \<Longrightarrow> 0 < i \<Longrightarrow> i < n \<Longrightarrow> parent i = hole \<Longrightarrow>
   expire_time v \<le> expire_time (c ! i)"
  by (simp add: sift_inv_def)

lemma sift_inv_grand:
  "sift_inv n c hole v \<Longrightarrow> 0 < i \<Longrightarrow> i < n \<Longrightarrow> parent i = hole \<Longrightarrow> 0 < hole \<Longrightarrow>
   expire_time (c ! parent hole) \<le> expire_time (c ! i)"
  by (simp add: sift_inv_def)

lemma sift_inv_step:
  assumes inv: "sift_inv n c hole v" and h: "0 < hole" "hole < n" "n \<le> length c"
    and gt: "TimerEntry_greater (c ! parent hole) v"
  shows "sift_inv n (c[hole := c ! parent hole]) (parent hole) v"
proof -
  let ?p = "parent hole"
  let ?c = "c[hole := c ! ?p]"
  have ph: "?p < hole" using h(1) by (rule parent_less)
  have hl: "hole < length c" using h by simp
  have up: "expire_time v \<le> expire_time (c ! ?p)"
    using gt by (simp add: TimerEntry_greater_def)
  have at_hole: "?c ! hole = c ! ?p" using hl by simp
  have other: "j \<noteq> hole \<Longrightarrow> ?c ! j = c ! j" for j by simp
  have edge: "expire_time (?c ! parent i) \<le> expire_time (?c ! i)"
    if i: "0 < i" "i < n" "i \<noteq> ?p" for i
  proof (cases "i = hole")
    case True
    then show ?thesis using at_hole other [of ?p] ph by simp
  next
    case ne: False
    show ?thesis
    proof (cases "parent i = hole")
      case True
      then show ?thesis
        using sift_inv_grand [OF inv i(1,2) True h(1)] at_hole other [OF ne] by simp
    next
      case False
      then show ?thesis
        using sift_inv_edge [OF inv i(1,2) ne] other [OF ne] other [OF False] by simp
    qed
  qed
  have above: "expire_time (c ! ?p) \<le> expire_time (?c ! i)"
    if i: "0 < i" "i < n" "parent i = ?p" for i
  proof (cases "i = hole")
    case True then show ?thesis using at_hole by simp
  next
    case False
    then show ?thesis
      using sift_inv_edge [OF inv i(1,2) False] i(3) other [OF False] by simp
  qed
  have child: "expire_time v \<le> expire_time (?c ! i)"
    if i: "0 < i" "i < n" "parent i = ?p" for i
    using above [OF i] up by simp
  have grand: "expire_time (?c ! parent ?p) \<le> expire_time (?c ! i)"
    if i: "0 < i" "i < n" "parent i = ?p" and pp: "0 < ?p" for i
  proof -
    have "parent ?p < ?p" using pp by (rule parent_less)
    then have "parent ?p \<noteq> hole" using ph by simp
    moreover have "expire_time (c ! parent ?p) \<le> expire_time (c ! ?p)"
      using sift_inv_edge [OF inv pp] ph h(2) by simp
    ultimately show ?thesis
      using above [OF i] other [of "parent ?p"] by simp
  qed
  show ?thesis
    unfolding sift_inv_def using edge child grand by blast
qed

lemma sift_inv_done:
  assumes inv: "sift_inv n c hole v" and h: "hole < n" "n \<le> length c"
    and stop: "\<not> (0 < hole \<and> TimerEntry_greater (c ! parent hole) v)"
  shows "heap_upto n (c[hole := v])"
  unfolding heap_upto_def
proof (intro allI impI)
  fix i assume "0 < i \<and> i < n"
  then have i: "0 < i" "i < n" by simp_all
  have hl: "hole < length c" using h by simp
  show "expire_time (c[hole := v] ! parent i) \<le> expire_time (c[hole := v] ! i)"
  proof (cases "i = hole")
    case True
    have "parent i \<noteq> hole" using parent_less [OF i(1)] True by simp
    moreover have "expire_time (c ! parent hole) \<le> expire_time v"
      using stop True i by (auto simp: TimerEntry_greater_def)
    ultimately show ?thesis using True hl by simp
  next
    case ne: False
    show ?thesis
    proof (cases "parent i = hole")
      case True
      then show ?thesis using sift_inv_child [OF inv i True] ne hl by simp
    next
      case False
      then show ?thesis using sift_inv_edge [OF inv i ne] ne by simp
    qed
  qed
qed

lemma push_heap_at_heap:
  assumes "sift_inv n c hole v" and "hole < n" and "n \<le> length c"
  shows "heap_upto n (push_heap_at c hole v)"
  using assms
proof (induction c hole v rule: push_heap_at.induct)
  case (1 c hole v)
  show ?case
  proof (cases "0 < hole \<and> TimerEntry_greater (c ! parent hole) v")
    case True
    have "sift_inv n (c[hole := c ! parent hole]) (parent hole) v"
      using sift_inv_step [OF "1.prems"(1) _ "1.prems"(2,3)] True by simp
    moreover have "parent hole < n"
      using parent_less [of hole] True "1.prems"(2) by simp
    ultimately have "heap_upto n (push_heap_at (c[hole := c ! parent hole]) (parent hole) v)"
      using "1.IH" [OF True] "1.prems"(3) by simp
    then show ?thesis
      using True by (subst push_heap_at.simps) simp
  next
    case False
    then show ?thesis
      using sift_inv_done [OF "1.prems" False] by (subst push_heap_at.simps) auto
  qed
qed

lemma push_heap_at_beyond:
  "hole < n \<Longrightarrow> n \<le> i \<Longrightarrow> push_heap_at c hole v ! i = c ! i"
proof (induction c hole v rule: push_heap_at.induct)
  case (1 c hole v)
  show ?case
  proof (cases "0 < hole \<and> TimerEntry_greater (c ! parent hole) v")
    case True
    have "parent hole < n" using parent_less [of hole] True "1.prems"(1) by simp
    then show ?thesis
      using "1.IH" [OF True _ "1.prems"(2)] True "1.prems"
      by (subst push_heap_at.simps) simp
  next
    case False
    then show ?thesis using "1.prems" by (subst push_heap_at.simps) auto
  qed
qed

lemma mset_push_heap_at:
  "hole < length c \<Longrightarrow> mset (push_heap_at c hole v) = mset (c[hole := v])"
proof (induction c hole v rule: push_heap_at.induct)
  case (1 c hole v)
  show ?case
  proof (cases "0 < hole \<and> TimerEntry_greater (c ! parent hole) v")
    case True
    let ?p = "parent hole"
    have ph: "?p < hole" using True by (simp add: parent_less)
    let ?d = "c[hole := v]"
    have "c[hole := c ! ?p, ?p := v] = ?d[hole := ?d ! ?p, ?p := ?d ! hole]"
      using ph "1.prems" by (simp add: list_update_swap)
    moreover have "mset (?d[hole := ?d ! ?p, ?p := ?d ! hole]) = mset ?d"
      using ph "1.prems" by (intro mset_swap) simp_all
    moreover have "mset (push_heap_at (c[hole := c ! ?p]) ?p v) = mset (c[hole := c ! ?p, ?p := v])"
      using "1.IH" [OF True] ph "1.prems" by simp
    ultimately show ?thesis
      using True by (subst push_heap_at.simps) simp
  next
    case False
    then show ?thesis by (subst push_heap_at.simps) auto
  qed
qed

lemma parent_eq_iff: "0 < i \<Longrightarrow> parent i = h \<longleftrightarrow> i = 2 * h + 1 \<or> i = 2 * h + 2"
  unfolding parent_def by arith

lemma lower_child_cases:
  "lower_child c hole = 2 * hole + 1 \<or> lower_child c hole = 2 * hole + 2"
  by (simp add: lower_child_def)

lemma lower_child_least:
  "expire_time (c ! lower_child c hole) \<le> expire_time (c ! (2 * hole + 1))"
  "expire_time (c ! lower_child c hole) \<le> expire_time (c ! (2 * hole + 2))"
  by (auto simp: lower_child_def TimerEntry_greater_def)

lemma heap_move_up:
  assumes hp: "heap_upto len c" and k: "k = 2 * hole + 1 \<or> k = 2 * hole + 2" "k < len"
    and len: "len \<le> length c"
    and least: "\<And>i. i < len \<Longrightarrow> i = 2 * hole + 1 \<or> i = 2 * hole + 2 \<Longrightarrow>
                  expire_time (c ! k) \<le> expire_time (c ! i)"
  shows "heap_upto len (c[hole := c ! k])"
  unfolding heap_upto_def
proof (intro allI impI)
  fix i assume "0 < i \<and> i < len"
  then have i: "0 < i" "i < len" by simp_all
  let ?c = "c[hole := c ! k]"
  have hk: "hole < k" "parent k = hole" "0 < k"
    using k(1) by (auto simp: parent_def)
  have hl: "hole < length c" using hk k len by simp
  show "expire_time (?c ! parent i) \<le> expire_time (?c ! i)"
  proof (cases "i = hole")
    case True
    have "parent hole \<noteq> hole" using parent_less [of hole] i True by simp
    moreover have "expire_time (c ! parent hole) \<le> expire_time (c ! hole)"
      using heap_uptoD [OF hp] i True by simp
    moreover have "expire_time (c ! hole) \<le> expire_time (c ! k)"
      using heap_uptoD [OF hp hk(3) k(2)] hk(2) by simp
    ultimately show ?thesis using True hl by simp
  next
    case ne: False
    show ?thesis
    proof (cases "parent i = hole")
      case True
      then have "i = 2 * hole + 1 \<or> i = 2 * hole + 2"
        using parent_eq_iff [OF i(1)] by simp
      then show ?thesis using least [OF i(2)] True ne hl by simp
    next
      case False
      then show ?thesis using heap_uptoD [OF hp i] ne by simp
    qed
  qed
qed

lemma adjust_heap_down_props:
  assumes "heap_upto len c" and "hole < len" and "len \<le> length c"
  shows "heap_upto len (fst (adjust_heap_down c hole len))
       \<and> snd (adjust_heap_down c hole len) < len
       \<and> \<not> snd (adjust_heap_down c hole len) < (len - 1) div 2
       \<and> (\<forall>i\<ge>len. fst (adjust_heap_down c hole len) ! i = c ! i)
       \<and> (\<forall>v. mset ((fst (adjust_heap_down c hole len))[snd (adjust_heap_down c hole len) := v])
              = mset (c[hole := v]))"
  using assms
proof (induction c hole len rule: adjust_heap_down.induct)
  case (1 c hole len)
  show ?case
  proof (cases "hole < (len - 1) div 2")
    case True
    let ?k = "lower_child c hole"
    let ?c = "c[hole := c ! ?k]"
    have k: "?k = 2 * hole + 1 \<or> ?k = 2 * hole + 2" by (rule lower_child_cases)
    have both: "2 * hole + 2 < len" using True by arith
    then have kl: "?k < len" using k by auto
    have hk: "hole < ?k" using k by auto
    have hp': "heap_upto len ?c"
    proof (rule heap_move_up [OF "1.prems"(1) k kl "1.prems"(3)])
      fix i assume "i < len" "i = 2 * hole + 1 \<or> i = 2 * hole + 2"
      then show "expire_time (c ! ?k) \<le> expire_time (c ! i)"
        using lower_child_least [of c hole] by auto
    qed
    have IH: "heap_upto len (fst (adjust_heap_down ?c ?k len))
       \<and> snd (adjust_heap_down ?c ?k len) < len
       \<and> \<not> snd (adjust_heap_down ?c ?k len) < (len - 1) div 2
       \<and> (\<forall>i\<ge>len. fst (adjust_heap_down ?c ?k len) ! i = ?c ! i)
       \<and> (\<forall>v. mset ((fst (adjust_heap_down ?c ?k len))[snd (adjust_heap_down ?c ?k len) := v])
              = mset (?c[?k := v]))"
      using "1.IH" [OF True hp' kl] "1.prems"(3) by simp
    have unf: "adjust_heap_down c hole len = adjust_heap_down ?c ?k len"
      using True by (subst adjust_heap_down.simps) simp
    have sw: "mset (?c[?k := v]) = mset (c[hole := v])" for v
    proof -
      let ?d = "c[hole := v]"
      have "?c[?k := v] = ?d[hole := ?d ! ?k, ?k := ?d ! hole]"
        using hk kl "1.prems" by (simp add: list_update_swap)
      moreover have "mset (?d[hole := ?d ! ?k, ?k := ?d ! hole]) = mset ?d"
        using hk kl "1.prems" by (intro mset_swap) simp_all
      ultimately show ?thesis by simp
    qed
    have beyond: "\<forall>i\<ge>len. ?c ! i = c ! i"
      using "1.prems"(2) by simp
    show ?thesis
      unfolding unf using IH sw beyond by simp
  next
    case False
    have "adjust_heap_down c hole len = (c, hole)"
      using False by (subst adjust_heap_down.simps) simp
    then show ?thesis using "1.prems" False by simp
  qed
qed

lemma leaf_sift_inv:
  assumes "heap_upto len c" and "\<And>i. 0 < i \<Longrightarrow> i < len \<Longrightarrow> parent i \<noteq> hole"
  shows "sift_inv len c hole v"
  using assms unfolding sift_inv_def heap_upto_def by blast

lemma adjust_heap_props:
  assumes hp: "heap_upto len c" and len: "0 < len" "len \<le> length c"
  shows "heap_upto len (adjust_heap c len v)
       \<and> (\<forall>i\<ge>len. adjust_heap c len v ! i = c ! i)
       \<and> mset (adjust_heap c len v) = mset (c[0 := v])
       \<and> length (adjust_heap c len v) = length c"
proof -
  let ?c = "fst (adjust_heap_down c 0 len)"
  let ?h = "snd (adjust_heap_down c 0 len)"
  from adjust_heap_down_props [OF hp len] have
    d: "heap_upto len ?c" "?h < len" "\<not> ?h < (len - 1) div 2"
      "\<forall>i\<ge>len. ?c ! i = c ! i" "\<And>v. mset (?c[?h := v]) = mset (c[0 := v])"
    by simp_all
  have lc: "length ?c = length c" by simp
  show ?thesis
  proof (cases "even len \<and> ?h = (len - 2) div 2")
    case True
    let ?k = "2 * (?h + 1) - 1"
    let ?c2 = "?c[?h := ?c ! ?k]"
    have k: "?k = 2 * ?h + 1" by simp
    have kl: "?k = len - 1" "?k < len" "2 * ?h + 2 = len"
      using True len(1) by (auto elim!: evenE)
    have hp2: "heap_upto len ?c2"
    proof (rule heap_move_up [OF d(1) _ kl(2)])
      show "?k = 2 * ?h + 1 \<or> ?k = 2 * ?h + 2" using k by simp
      show "len \<le> length ?c" using len lc by simp
      fix i assume "i < len" "i = 2 * ?h + 1 \<or> i = 2 * ?h + 2"
      then show "expire_time (?c ! ?k) \<le> expire_time (?c ! i)"
        using kl by auto
    qed
    have leaf: "parent i \<noteq> ?k" if "0 < i" "i < len" for i
      using that kl parent_eq_iff [OF that(1), of ?k] by auto
    have run: "adjust_heap c len v = push_heap_at ?c2 ?k v"
      using True by (simp add: adjust_heap_def case_prod_beta)
    have "heap_upto len (push_heap_at ?c2 ?k v)"
      using push_heap_at_heap [OF leaf_sift_inv [OF hp2 leaf] kl(2)] len lc by simp
    moreover have "\<forall>i\<ge>len. push_heap_at ?c2 ?k v ! i = c ! i"
      using push_heap_at_beyond [OF kl(2)] d(2,4) by simp
    moreover have "mset (push_heap_at ?c2 ?k v) = mset (c[0 := v])"
    proof -
      have hk: "?h < ?k" by simp
      have "mset (push_heap_at ?c2 ?k v) = mset (?c2[?k := v])"
        using mset_push_heap_at [of ?k ?c2 v] kl(2) len lc by simp
      also have "?c2[?k := v] = (?c[?h := v])[?h := (?c[?h := v]) ! ?k, ?k := (?c[?h := v]) ! ?h]"
        using hk kl(2) d(2) len lc by (simp add: list_update_swap)
      also have "mset \<dots> = mset (?c[?h := v])"
        using hk kl(2) d(2) len lc by (intro mset_swap) simp_all
      finally show ?thesis using d(5) by simp
    qed
    ultimately show ?thesis using run by simp
  next
    case False
    have leaf: "parent i \<noteq> ?h" if "0 < i" "i < len" for i
    proof
      assume "parent i = ?h"
      then have "i = 2 * ?h + 1 \<or> i = 2 * ?h + 2"
        using parent_eq_iff [OF that(1)] by simp
      then show False using that(2) d(3) False by (cases "even len") (auto elim!: evenE oddE)
    qed
    have run: "adjust_heap c len v = push_heap_at ?c ?h v"
      using False by (auto simp add: adjust_heap_def case_prod_beta)
    have "heap_upto len (push_heap_at ?c ?h v)"
      using push_heap_at_heap [OF leaf_sift_inv [OF d(1) leaf] d(2)] len lc by simp
    moreover have "\<forall>i\<ge>len. push_heap_at ?c ?h v ! i = c ! i"
      using push_heap_at_beyond [OF d(2)] d(4) by simp
    moreover have "mset (push_heap_at ?c ?h v) = mset (c[0 := v])"
      using mset_push_heap_at [of ?h ?c v] d(2,5) len lc by simp
    ultimately show ?thesis using run by simp
  qed
qed

lemma is_heap_Nil [simp]: "is_heap []"
  by (simp add: is_heap_def heap_upto_def)

lemma pq_push_props:
  assumes "is_heap c"
  shows "is_heap (pq_push c x) \<and> mset (pq_push c x) = add_mset x (mset c)"
proof -
  let ?n = "length c"
  have run: "pq_push c x = push_heap_at (c @ [x]) ?n x"
    by (simp add: pq_push_def push_heap_def)
  have edge: "expire_time ((c @ [x]) ! parent i) \<le> expire_time ((c @ [x]) ! i)"
    if "0 < i" "i < Suc ?n" "i \<noteq> ?n" for i
  proof -
    have "i < ?n" "parent i < ?n" using parent_less [of i] that by simp_all
    then show ?thesis
      using assms that(1) by (simp add: is_heap_def heap_upto_def nth_append)
  qed
  have leaf: "parent i \<noteq> ?n" if "0 < i" "i < Suc ?n" for i
    using parent_less [of i] that by simp
  have inv: "sift_inv (Suc ?n) (c @ [x]) ?n x"
    unfolding sift_inv_def using edge leaf by blast
  have "heap_upto (Suc ?n) (push_heap_at (c @ [x]) ?n x)"
    by (rule push_heap_at_heap [OF inv]) simp_all
  moreover have "mset (push_heap_at (c @ [x]) ?n x) = add_mset x (mset c)"
    using mset_push_heap_at [of ?n "c @ [x]" x] by simp
  ultimately show ?thesis
    by (simp add: run is_heap_def)
qed

lemma pq_pop_props:
  assumes hp: "is_heap c" and ne: "c \<noteq> []"
  shows "is_heap (pq_pop c) \<and> mset (pq_pop c) = mset c - {#c ! 0#}"
proof (cases "1 < length c")
  case False
  then obtain x where "c = [x]" using ne by (cases c) auto
  then show ?thesis by (simp add: pq_pop_def pop_heap_def)
next
  case True
  let ?len = "length c - 1"
  let ?c0 = "c[?len := c ! 0]"
  let ?v = "c ! ?len"
  let ?r = "adjust_heap ?c0 ?len ?v"
  have run: "pop_heap c = ?r" using True by (simp add: pop_heap_def)
  have hp0: "heap_upto ?len ?c0"
    unfolding heap_upto_def
  proof (intro allI impI)
    fix i assume i: "0 < i \<and> i < ?len"
    then have "parent i < ?len" "i < length c" using parent_less [of i] by simp_all
    moreover have "expire_time (c ! parent i) \<le> expire_time (c ! i)"
      using hp i \<open>i < length c\<close> by (simp add: is_heap_def heap_upto_def)
    ultimately show "expire_time (?c0 ! parent i) \<le> expire_time (?c0 ! i)"
      using i by simp
  qed
  from adjust_heap_props [OF hp0, of ?v] True have
    r: "heap_upto ?len ?r" "\<forall>i\<ge>?len. ?r ! i = ?c0 ! i" "mset ?r = mset (?c0[0 := ?v])"
       "length ?r = length c"
    by simp_all
  have rne: "?r \<noteq> []" using r(4) True by auto
  have "last ?r = ?r ! ?len"
    using r(4) rne by (simp add: last_conv_nth)
  also have "\<dots> = ?c0 ! ?len" using r(2) by blast
  also have "\<dots> = c ! 0" using True by simp
  finally have last: "last ?r = c ! 0" .
  have "mset (?c0[0 := ?v]) = mset c"
    using True ne by (intro mset_swap) simp_all
  then have "mset ?r = mset c" using r(3) by simp
  moreover have "mset ?r = add_mset (last ?r) (mset (butlast ?r))"
    using rne by (metis append_butlast_last_id mset_append add_mset_add_single mset.simps(1) mset.simps(2) union_mset_add_mset_right add.right_neutral)
  ultimately have m: "mset (butlast ?r) = mset c - {#c ! 0#}"
    using last by (metis add_mset_remove_trivial)
  have "heap_upto (length (butlast ?r)) (butlast ?r)"
    unfolding heap_upto_def
  proof (intro allI impI)
    fix i assume i: "0 < i \<and> i < length (butlast ?r)"
    then have "i < ?len" "parent i < ?len" using parent_less [of i] r(4) by simp_all
    then show "expire_time (butlast ?r ! parent i) \<le> expire_time (butlast ?r ! i)"
      using heap_uptoD [OF r(1), of i] i r(4) by (simp add: nth_butlast)
  qed
  then show ?thesis
    using m by (simp add: pq_pop_def run is_heap_def)
qed

lemma heap_top_least:
  assumes "is_heap c" and "i < length c"
  shows "expire_time (c ! 0) \<le> expire_time (c ! i)"
  using assms(2)
proof (induction i rule: less_induct)
  case (less i)
  show ?case
  proof (cases "i = 0")
    case False
    then have p: "parent i < i" by (simp add: parent_less)
    have "expire_time (c ! parent i) \<le> expire_time (c ! i)"
      using assms(1) False less.prems by (simp add: is_heap_def heap_upto_def)
    moreover have "expire_time (c ! 0) \<le> expire_time (c ! parent i)"
      using less.IH [OF p] p less.prems by simp
    ultimately show ?thesis by simp
  qed simp
qed

lemma heap_top_least_mset:
  assumes "is_heap c" and "e \<in># mset c"
  shows "expire_time (c ! 0) \<le> expire_time e"
  using assms heap_top_least by (metis in_set_conv_nth set_mset_mset)

lemma fire_due_order:
  assumes "is_heap (timers l)"
  shows "\<exists>fired. ready_tasks (fire_due now l) = ready_tasks l @ map handle fired
           \<and> sorted (map expire_time fired)
           \<and> mset fired = filter_mset (\<lambda>e. expire_time e \<le> now) (mset (timers l))"
  using assms
proof (induction now l rule: fire_due.induct)
  case (1 now l)
  show ?case
  proof (cases "timers l")
    case Nil
    then show ?thesis by (subst fire_due.simps) simp
  next
    case (Cons e rest)
    then have top: "timers l ! 0 = e" and ne: "timers l \<noteq> []" by simp_all
    have least: "expire_time e \<le> expire_time x" if "x \<in># mset (timers l)" for x
      using heap_top_least_mset [OF "1.prems" that] top by simp
    show ?thesis
    proof (cases "expire_time e \<le> now")
      case True
      let ?l = "l\<lparr>ready_tasks := ready_tasks l @ [handle e], timers := pq_pop (timers l)\<rparr>"
      from pq_pop_props [OF "1.prems" ne] have
        pop: "is_heap (timers ?l)" "mset (timers ?l) = mset (timers l) - {#e#}"
        using top by simp_all
      from "1.IH" [OF Cons True pop(1)] obtain fired where
        f: "ready_tasks (fire_due now ?l) = ready_tasks ?l @ map handle fired"
           "sorted (map expire_time fired)"
           "mset fired = filter_mset (\<lambda>x. expire_time x \<le> now) (mset (timers ?l))"
        by blast
      have unf: "fire_due now l = fire_due now ?l"
        using Cons True by (subst fire_due.simps) simp
      have mem: "e \<in># mset (timers l)" using Cons by simp
      have "\<forall>x \<in> set fired. expire_time e \<le> expire_time x"
      proof
        fix x assume "x \<in> set fired"
        then have "x \<in># mset fired" by simp
        then have "x \<in># filter_mset (\<lambda>x. expire_time x \<le> now) (mset (timers ?l))"
          by (simp only: f(3))
        then have "x \<in># mset (timers ?l)" by simp
        then have "x \<in># mset (timers l) - {#e#}" by (simp only: pop(2))
        then have "x \<in># mset (timers l)" by (rule in_diffD)
        then show "expire_time e \<le> expire_time x" by (rule least)
      qed
      then have s: "sorted (map expire_time (e # fired))"
        using f(2) by simp
      have "mset (e # fired) = filter_mset (\<lambda>x. expire_time x \<le> now) (mset (timers l))"
      proof -
        have "mset (timers l) = add_mset e (mset (timers l) - {#e#})"
          using mem by simp
        then have "filter_mset (\<lambda>x. expire_time x \<le> now) (mset (timers l)) =
            filter_mset (\<lambda>x. expire_time x \<le> now) (add_mset e (mset (timers l) - {#e#}))"
          by simp
        also have "\<dots> = add_mset e (filter_mset (\<lambda>x. expire_time x \<le> now) (mset (timers l) - {#e#}))"
          using True by simp
        finally show ?thesis using f(3) pop(2) by simp
      qed
      then show ?thesis
        using unf f(1) s by (intro exI [of _ "e # fired"]) simp
    next
      case False
      have "\<not> expire_time x \<le> now" if "x \<in># mset (timers l)" for x
        using least [OF that] False by simp
      then have "filter_mset (\<lambda>x. expire_time x \<le> now) (mset (timers l)) = {#}"
        unfolding filter_mset_eq_mempty_iff by blast
      moreover have "fire_due now l = l"
        using Cons False by (subst fire_due.simps) simp
      ultimately show ?thesis by (intro exI [of _ "[]"]) simp
    qed
  qed
qed

lemma add_timers_props:
  assumes "is_heap (timers l)"
  shows "is_heap (timers (add_timers l es))
       \<and> mset (timers (add_timers l es)) = mset (timers l) + mset es
       \<and> ready_tasks (add_timers l es) = ready_tasks l"
  using assms
proof (induction es arbitrary: l)
  case Nil
  then show ?case by (simp add: add_timers_def)
next
  case (Cons e es)
  let ?l = "add_timer l (expire_time e) (handle e)"
  have e: "\<lparr>expire_time = expire_time e, handle = handle e\<rparr> = e" by simp
  have "is_heap (timers ?l)" "mset (timers ?l) = add_mset e (mset (timers l))"
       "ready_tasks ?l = ready_tasks l"
    using pq_push_props [OF Cons.prems, of e] by (simp_all add: add_timer_def e)
  then show ?case
    using Cons.IH [of ?l] by (simp add: add_timers_def)
qed

text \<open>
  Claim C7, as the code has it. Whatever timer entries are registered, the entries that
  are due fire in nondecreasing order of expiry time, each of them once; entries with
  equal expiry times fire in no fixed order. In particular two timers with expiries
  \<open>t1 < t2\<close>, registered \<open>t2\<close> first, fire the frame of \<open>t1\<close> before that of \<open>t2\<close> once
  both are due.
\<close>

theorem timers_fire_in_expiry_order:
  "(\<exists>fired. ready_tasks (fire_due now (add_timers new_Loop es)) = map handle fired
        \<and> sorted (map expire_time fired)
        \<and> mset fired = filter_mset (\<lambda>e. expire_time e \<le> now) (mset es))
   \<and> (t1 < t2 \<and> t2 \<le> now \<longrightarrow>
        ready_tasks (fire_due now (add_timer (add_timer new_Loop t2 h2) t1 h1)) = [h1, h2])"
proof -
  have "is_heap (timers new_Loop)" by (simp add: new_Loop_def)
  from add_timers_props [OF this, of es] fire_due_order [of "add_timers new_Loop es" now]
  have 1: "\<exists>fired. ready_tasks (fire_due now (add_timers new_Loop es)) = map handle fired
        \<and> sorted (map expire_time fired)
        \<and> mset fired = filter_mset (\<lambda>e. expire_time e \<le> now) (mset es)"
    by (simp add: new_Loop_def)
  have 2: "ready_tasks (fire_due now (add_timer (add_timer new_Loop t2 h2) t1 h1)) = [h1, h2]"
    if "t1 < t2" "t2 \<le> now"
    using that
    by (simp add: add_timer_def new_Loop_def pq_push_def push_heap_def push_heap_at.simps
          parent_def TimerEntry_greater_def fire_due.simps pq_pop_def pop_heap_def
          adjust_heap_def adjust_heap_down.simps)
  show ?thesis using 1 2 by blast
qed

theorem timers_fire_in_expiry_order_witness:
  "ready_tasks (fire_due 10 (add_timer (add_timer new_Loop 7 (Frame 0)) 3 (Frame 1))) =
     [Frame 1, Frame 0]"
  using timers_fire_in_expiry_order [of 10 "[]" 3 7 "Frame 0" "Frame 1"]
  by simp

text \<open>
  The claim as stated fails on ties: frames 0 and 1 are registered in this order with
  the same expiry 5, frame 2 after them with expiry 1; frame 1 fires before frame 0.
\<close>

theorem timer_ties_counterexample:
  "ready_tasks
     (fire_due 10
        (add_timer (add_timer (add_timer new_Loop 5 (Frame 0)) 5 (Frame 1)) 1 (Frame 2))) =
   [Frame 2, Frame 1, Frame 0]"
  by (simp add: add_timer_def new_Loop_def pq_push_def push_heap_def push_heap_at.simps
        parent_def TimerEntry_greater_def fire_due.simps pq_pop_def pop_heap_def
        adjust_heap_def adjust_heap_down.simps)

end
